theory Spec2Isabelle
  imports Main "HOL-Library.AList" "HOL-Library.Word"
begin

section \<open>Data model\<close>

text \<open>
  The program is \<^verbatim>\<open>lzw.py\<close>: an LZW encoder (\<^verbatim>\<open>compress\<close>), the matching decoder
  (\<^verbatim>\<open>uncompress\<close>) and the two functions that write and read the binary file
  (\<^verbatim>\<open>compress_to_file\<close>, \<^verbatim>\<open>uncompress_from_file\<close>).

  \<^item> A Python \<^verbatim>\<open>str\<close> is a list of symbols. The encoder and the decoder never look
    inside a symbol, so they are polymorphic in the symbol type \<open>'a\<close>; the file
    functions call \<^verbatim>\<open>ord\<close> and \<^verbatim>\<open>chr\<close>, so there a symbol is its code point, a
    \<open>nat\<close>. A character is a string of length one, as in Python.
  \<^item> A code is an unsigned integer, a \<open>nat\<close>.
  \<^item> A \<^verbatim>\<open>dict\<close> is an association list in insertion order with one pair per key.
    \<^verbatim>\<open>d[k] = v\<close> replaces the value in place when the key is present and appends the
    pair otherwise (\<open>AList.update\<close>), \<^verbatim>\<open>d[k]\<close> raises \<^verbatim>\<open>KeyError\<close> on a miss.
  \<^item> Every exception the code can raise is a constructor of \<open>error\<close>, and every function
    that can raise returns \<open>error + 'a\<close>.
  \<^item> The \<^verbatim>\<open>verbose\<close> flag only prints; it is left out.
\<close>

datatype error =
    ValueError_max_empty         \<comment> \<open>\<^verbatim>\<open>max()\<close> of an empty dict\<close>
  | ValueError_bad_compression   \<comment> \<open>line 202, \<^verbatim>\<open>raise ValueError("Bad compression! ...")\<close>\<close>
  | ValueError_chr               \<comment> \<open>\<^verbatim>\<open>chr\<close> of a value that is no code point\<close>
  | KeyError                     \<comment> \<open>\<^verbatim>\<open>d[k]\<close> with \<open>k\<close> not in \<open>d\<close>\<close>
  | IndexError                   \<comment> \<open>\<^verbatim>\<open>s[0]\<close> of an empty string, \<^verbatim>\<open>pop(0)\<close> of an empty list\<close>
  | StructError                  \<comment> \<open>\<^verbatim>\<open>struct.pack\<close> out of range, \<^verbatim>\<open>struct.unpack\<close> of a short buffer\<close>
  | TypeError                    \<comment> \<open>\<^verbatim>\<open>ord\<close> of a string whose length is not one\<close>

definition bind_err :: "error + 'a \<Rightarrow> ('a \<Rightarrow> error + 'b) \<Rightarrow> error + 'b" where
  "bind_err x f = (case x of Inl e \<Rightarrow> Inl e | Inr v \<Rightarrow> f v)"

type_synonym ('k, 'v) dict = "('k \<times> 'v) list"

definition dict_contains :: "'k \<Rightarrow> ('k, 'v) dict \<Rightarrow> bool" where
  "dict_contains k d = (map_of d k \<noteq> None)"

definition dict_get :: "('k, 'v) dict \<Rightarrow> 'k \<Rightarrow> error + 'v" where
  "dict_get d k = (case map_of d k of None \<Rightarrow> Inl KeyError | Some v \<Rightarrow> Inr v)"

definition dict_set :: "'k \<Rightarrow> 'v \<Rightarrow> ('k, 'v) dict \<Rightarrow> ('k, 'v) dict" where
  "dict_set k v d = AList.update k v d"

text \<open>A dict comprehension \<^verbatim>\<open>{k: v for ...}\<close> stores the pairs one after the other.\<close>

definition dict_of_pairs :: "('k \<times> 'v) list \<Rightarrow> ('k, 'v) dict" where
  "dict_of_pairs ps = fold (\<lambda>(k, v) d. dict_set k v d) ps []"

text \<open>
  \<^verbatim>\<open>table[max(table, key=table.get)]\<close>: the value stored under the key whose value is
  largest, that is, the largest value. \<^verbatim>\<open>max\<close> raises \<^verbatim>\<open>ValueError\<close> on an empty dict.
\<close>

definition dict_max_value :: "('k, nat) dict \<Rightarrow> error + nat" where
  "dict_max_value d =
     (case d of [] \<Rightarrow> Inl ValueError_max_empty
      | (k, v) # rest \<Rightarrow> Inr (fold max (map snd rest) v))"

definition max_table_size :: nat where
  "max_table_size = 2 ^ 16"

text \<open>The two passes share the working table and its counter.\<close>

record ('k, 'v) table_state =
  table :: "('k, 'v) dict"
  table_size :: nat

section \<open>The encoder: \<^verbatim>\<open>compress\<close>\<close>

record 'a compress_state = "('a list, nat) table_state" +
  compressed_data :: "nat list"
  initial_table :: "('a list, nat) dict"
  prefix :: "'a list"

text \<open>The body of \<^verbatim>\<open>for char in uncompressed_data\<close> (lines 76 to 104).\<close>

definition compress_step :: "'a \<Rightarrow> 'a compress_state \<Rightarrow> error + 'a compress_state" where
  "compress_step char st =
     (if dict_contains (prefix st @ [char]) (table st)
      then Inr (st\<lparr>prefix := prefix st @ [char]\<rparr>)
      else bind_err (dict_get (table st) (prefix st)) (\<lambda>code.
        let st1 = st\<lparr>compressed_data := compressed_data st @ [code]\<rparr>;
            st2 = (if \<not> (table_size st1 > max_table_size - 1)
                   then st1\<lparr>table := dict_set (prefix st1 @ [char]) (table_size st1) (table st1),
                            table_size := table_size st1 + 1\<rparr>
                   else st1)
        in Inr (st2\<lparr>prefix := [char]\<rparr>)))"

fun compress_loop :: "'a list \<Rightarrow> 'a compress_state \<Rightarrow> error + 'a compress_state" where
  "compress_loop [] st = Inr st"
| "compress_loop (char # rest) st = bind_err (compress_step char st) (compress_loop rest)"

text \<open>
  \<^verbatim>\<open>unique_chars = list(set(uncompressed_data))\<close>: Python fixes neither the order of a
  set nor that of the list made from it. The list is therefore a parameter of the model,
  and the theorems assume of it only what the language guarantees:
  \<open>distinct unique_chars\<close> and \<open>set unique_chars = set uncompressed_data\<close>.

  \<open>compress_run\<close> is the whole body up to the last append and returns every local
  variable; \<open>compress\<close> returns what the source returns.
\<close>

definition compress_run :: "'a list \<Rightarrow> 'a list \<Rightarrow> error + 'a compress_state" where
  "compress_run unique_chars uncompressed_data =
     (let initial_table0 =
            dict_of_pairs (map (\<lambda>i. ([unique_chars ! i], i)) [0..<length unique_chars]);
          table0 = initial_table0
      in bind_err (dict_max_value table0) (\<lambda>m.
           bind_err (compress_loop uncompressed_data
                       \<lparr>table = table0, table_size = m + 1, compressed_data = [],
                        initial_table = initial_table0, prefix = []\<rparr>) (\<lambda>st.
             if prefix st \<noteq> []
             then bind_err (dict_get (table st) (prefix st)) (\<lambda>code.
                    Inr (st\<lparr>compressed_data := compressed_data st @ [code]\<rparr>))
             else Inr st)))"

definition compress :: "'a list \<Rightarrow> 'a list \<Rightarrow> error + (nat list \<times> ('a list, nat) dict)" where
  "compress unique_chars uncompressed_data =
     bind_err (compress_run unique_chars uncompressed_data) (\<lambda>st.
       Inr (compressed_data st, initial_table st))"

section \<open>The decoder: \<^verbatim>\<open>uncompress\<close>\<close>

text \<open>
  \<^verbatim>\<open>uncompress\<close> receives two mutable objects. \<open>arg_compressed_data\<close> and \<open>arg_table\<close>
  are the contents of the caller's list and dict; \<open>table\<close> is the new dict that line 168
  builds and binds to the local name.
\<close>

record 'a uncompress_state = "(nat, 'a list) table_state" +
  arg_compressed_data :: "nat list"
  arg_table :: "('a list, nat) dict"
  uncompressed_data :: "'a list"
  previous :: "'a list"

text \<open>The body of \<^verbatim>\<open>for current in compressed_data\<close> (lines 185 to 219).\<close>

definition uncompress_step :: "nat \<Rightarrow> 'a uncompress_state \<Rightarrow> error + 'a uncompress_state" where
  "uncompress_step current st =
     bind_err
       (if dict_contains current (table st) then dict_get (table st) current
        else if current = table_size st
        then (case previous st of [] \<Rightarrow> Inl IndexError
              | p0 # _ \<Rightarrow> Inr (previous st @ [p0]))
        else Inl ValueError_bad_compression)
       (\<lambda>output.
          case output of [] \<Rightarrow> Inl IndexError
          | o0 # _ \<Rightarrow>
              Inr (st\<lparr>uncompressed_data := uncompressed_data st @ output,
                      table := dict_set (table_size st) (previous st @ [o0]) (table st),
                      table_size := table_size st + 1,
                      previous := output\<rparr>))"

fun uncompress_loop :: "nat list \<Rightarrow> 'a uncompress_state \<Rightarrow> error + 'a uncompress_state" where
  "uncompress_loop [] st = Inr st"
| "uncompress_loop (current # rest) st =
     bind_err (uncompress_step current st) (uncompress_loop rest)"

definition uncompress_run ::
  "nat list \<Rightarrow> ('a list, nat) dict \<Rightarrow> error + 'a uncompress_state" where
  "uncompress_run compressed_data0 table0 =
     bind_err (dict_max_value table0) (\<lambda>m.
       let table1 = dict_of_pairs (map (\<lambda>(key, value). (value, key)) table0)
       in (case compressed_data0 of
            [] \<Rightarrow> Inl IndexError
          | first # popped \<Rightarrow>
              bind_err (dict_get table1 first) (\<lambda>current.
                uncompress_loop popped
                  \<lparr>table = table1, table_size = m + 1,
                   arg_compressed_data = popped, arg_table = table0,
                   uncompressed_data = current, previous = current\<rparr>)))"

definition uncompress :: "nat list \<Rightarrow> ('a list, nat) dict \<Rightarrow> error + 'a list" where
  "uncompress compressed_data0 table0 =
     bind_err (uncompress_run compressed_data0 table0) (\<lambda>st. Inr (uncompressed_data st))"

section \<open>The binary file\<close>

type_synonym byte = "8 word"

text \<open>\<^verbatim>\<open>struct.pack("<B", x)\<close>, \<^verbatim>\<open>struct.pack("<H", x)\<close> and their inverses.\<close>

definition pack_B :: "nat \<Rightarrow> error + byte list" where
  "pack_B x = (if x \<le> 255 then Inr [of_nat x] else Inl StructError)"

definition pack_H :: "nat \<Rightarrow> error + byte list" where
  "pack_H x = (if x \<le> 65535 then Inr [of_nat (x mod 256), of_nat (x div 256)]
               else Inl StructError)"

definition unpack_B :: "byte list \<Rightarrow> error + nat" where
  "unpack_B bs = (case bs of [b] \<Rightarrow> Inr (unat b) | _ \<Rightarrow> Inl StructError)"

definition unpack_H :: "byte list \<Rightarrow> error + nat" where
  "unpack_H bs = (case bs of [b0, b1] \<Rightarrow> Inr (unat b0 + 256 * unat b1) | _ \<Rightarrow> Inl StructError)"

definition ord :: "nat list \<Rightarrow> error + nat" where
  "ord s = (case s of [c] \<Rightarrow> Inr c | _ \<Rightarrow> Inl TypeError)"

definition chr :: "nat \<Rightarrow> error + nat list" where
  "chr x = (if x < 1114112 then Inr [x] else Inl ValueError_chr)"

text \<open>Lines 289 to 291: one entry of the table is three bytes.\<close>

fun write_table :: "(nat list, nat) dict \<Rightarrow> error + byte list" where
  "write_table [] = Inr []"
| "write_table ((char, code) # rest) =
     bind_err (ord char) (\<lambda>cp.
     bind_err (pack_H cp) (\<lambda>b1.
     bind_err (pack_B code) (\<lambda>b2.
     bind_err (write_table rest) (\<lambda>bs. Inr (b1 @ b2 @ bs)))))"

text \<open>Lines 297 and 298.\<close>

fun write_codes :: "nat list \<Rightarrow> error + byte list" where
  "write_codes [] = Inr []"
| "write_codes (data # rest) =
     bind_err (pack_H data) (\<lambda>b. bind_err (write_codes rest) (\<lambda>bs. Inr (b @ bs)))"

text \<open>
  Lines 269 to 298 of \<^verbatim>\<open>compress_to_file\<close>: the bytes written for a table and a code
  sequence. An exception leaves a truncated file behind; the model returns the exception.
\<close>

definition write_file :: "(nat list, nat) dict \<Rightarrow> nat list \<Rightarrow> error + byte list" where
  "write_file table0 compressed_data0 =
     bind_err (dict_max_value table0) (\<lambda>table_size0.
     bind_err (pack_B table_size0) (\<lambda>b0.
     bind_err (write_table table0) (\<lambda>b1.
     bind_err (write_codes compressed_data0) (\<lambda>b2. Inr (b0 @ b1 @ b2)))))"

text \<open>\<^verbatim>\<open>compress_to_file\<close> from the text read to the bytes written.\<close>

definition compress_to_file :: "nat list \<Rightarrow> nat list \<Rightarrow> error + byte list" where
  "compress_to_file unique_chars data =
     bind_err (compress unique_chars data) (\<lambda>(compressed_data0, table0).
       write_file table0 compressed_data0)"

text \<open>
  Lines 343 to 347: \<^verbatim>\<open>file.read(n)\<close> returns the next \<open>n\<close> bytes, or fewer at the end
  of the file, and \<^verbatim>\<open>struct.unpack\<close> raises on a short buffer.
\<close>

fun read_table ::
  "nat \<Rightarrow> byte list \<Rightarrow> (nat list, nat) dict \<Rightarrow> error + ((nat list, nat) dict \<times> byte list)" where
  "read_table 0 bs table0 = Inr (table0, bs)"
| "read_table (Suc n) bs table0 =
     bind_err (unpack_H (take 2 bs)) (\<lambda>cp.
     bind_err (chr cp) (\<lambda>char.
     bind_err (unpack_B (take 1 (drop 2 bs))) (\<lambda>code.
       read_table n (drop 3 bs) (dict_set char code table0))))"

text \<open>
  Lines 353 to 359: two bytes at a time until \<^verbatim>\<open>read\<close> returns nothing; a single
  trailing byte makes \<^verbatim>\<open>struct.unpack\<close> raise.
\<close>

fun read_codes :: "byte list \<Rightarrow> nat list \<Rightarrow> error + nat list" where
  "read_codes [] compressed_data0 = Inr compressed_data0"
| "read_codes [b] compressed_data0 = Inl StructError"
| "read_codes (b0 # b1 # bs) compressed_data0 =
     bind_err (unpack_H [b0, b1]) (\<lambda>data. read_codes bs (compressed_data0 @ [data]))"

text \<open>Lines 329 to 359 of \<^verbatim>\<open>uncompress_from_file\<close>: the table and the codes read.\<close>

definition read_file :: "byte list \<Rightarrow> error + ((nat list, nat) dict \<times> nat list)" where
  "read_file bs =
     bind_err (unpack_B (take 1 bs)) (\<lambda>table_size0.
     bind_err (read_table (table_size0 + 1) (drop 1 bs) []) (\<lambda>(table0, bs').
     bind_err (read_codes bs' []) (\<lambda>compressed_data0. Inr (table0, compressed_data0))))"

definition uncompress_from_file :: "byte list \<Rightarrow> error + nat list" where
  "uncompress_from_file bs =
     bind_err (read_file bs) (\<lambda>(table0, compressed_data0). uncompress compressed_data0 table0)"

section \<open>Definitions used in the statements and proofs\<close>

text \<open>The composition the round-trip law speaks of: \<^verbatim>\<open>uncompress(*compress(s))\<close>.\<close>

definition uncompress_compress :: "'a list \<Rightarrow> 'a list \<Rightarrow> error + 'a list" where
  "uncompress_compress unique_chars s =
     bind_err (compress unique_chars s) (\<lambda>(compressed_data0, table0).
       uncompress compressed_data0 table0)"

text \<open>
  What one successful pass through the decoder's loop body does to its state when the
  string decoded is \<open>p\<close>.
\<close>

definition decoded :: "'a list \<Rightarrow> 'a uncompress_state \<Rightarrow> 'a uncompress_state" where
  "decoded p ds = ds\<lparr>uncompressed_data := uncompressed_data ds @ p,
                      table := dict_set (table_size ds) (previous ds @ [hd p]) (table ds),
                      table_size := table_size ds + 1,
                      previous := p\<rparr>"

text \<open>
  The relation between the encoder and the decoder when the encoder holds the pending
  prefix \<open>prefix es\<close> and the decoder has read every code emitted so far. The decoder
  knows every entry of the encoder's table but possibly the last one, which the encoder
  stored under the decoder's counter when it emitted \<open>previous ds\<close>; if the encoder
  did not store it, its table is full.
\<close>

definition lzw_sync :: "'a compress_state \<Rightarrow> 'a uncompress_state \<Rightarrow> bool" where
  "lzw_sync es ds \<longleftrightarrow>
     prefix es \<noteq> [] \<and> previous ds \<noteq> [] \<and>
     map_of (table es) (prefix es) \<noteq> None \<and>
     (\<forall>k \<ge> table_size ds. map_of (table ds) k = None) \<and>
     (\<exists>T'. (\<forall>w k. T' w = Some k \<longrightarrow> map_of (table ds) k = Some w \<and> k < table_size ds) \<and>
        ((map_of (table es) = T' \<and> table_size es > max_table_size - 1) \<or>
         (map_of (table es) = T'(previous ds @ [hd (prefix es)] \<mapsto> table_size ds) \<and>
          table_size es = table_size ds + 1)))"

text \<open>
  The decoder's acceptance rule in the words of the specification: a code is accepted
  when it is a key of the working table or the next code to be assigned, and every
  accepted code adds the next code to the keys.
\<close>

fun codes_accepted :: "nat set \<Rightarrow> nat \<Rightarrow> nat list \<Rightarrow> bool" where
  "codes_accepted keys next_code [] = True"
| "codes_accepted keys next_code (current # rest) =
     ((current \<in> keys \<or> current = next_code) \<and>
      codes_accepted (insert next_code keys) (Suc next_code) rest)"

text \<open>The decoder can index \<^verbatim>\<open>previous[0]\<close> and \<^verbatim>\<open>output[0]\<close>: no string it holds is empty.\<close>

definition decoder_ready :: "'a uncompress_state \<Rightarrow> bool" where
  "decoder_ready ds \<longleftrightarrow>
     previous ds \<noteq> [] \<and> (\<forall>k w. map_of (table ds) k = Some w \<longrightarrow> w \<noteq> [])"

text \<open>A table entry that fits the file format: one symbol of two bytes, a code of one byte.\<close>

definition entry_ok :: "nat list \<times> nat \<Rightarrow> bool" where
  "entry_ok kv \<longleftrightarrow> (\<exists>c. fst kv = [c] \<and> c < 65536) \<and> snd kv < 256"

text \<open>The encoder's counter, table values and emitted codes stay below the ceiling.\<close>

definition enc_bounded :: "'a compress_state \<Rightarrow> bool" where
  "enc_bounded st \<longleftrightarrow>
     table_size st \<le> max_table_size \<and>
     (\<forall>w k. map_of (table st) w = Some k \<longrightarrow> k < table_size st) \<and>
     (\<forall>d\<in>set (compressed_data st). d < max_table_size)"

section \<open>Basic facts\<close>

lemma bind_err_Inl [simp]: "bind_err (Inl e) f = Inl e"
  by (simp add: bind_err_def)

lemma bind_err_Inr [simp]: "bind_err (Inr v) f = f v"
  by (simp add: bind_err_def)

lemma map_of_dict_set [simp]: "map_of (dict_set k v d) = (map_of d)(k \<mapsto> v)"
  by (simp add: dict_set_def update_conv')

lemma dict_get_Some: "map_of d k = Some v \<Longrightarrow> dict_get d k = Inr v"
  by (simp add: dict_get_def)

lemma dict_get_None: "map_of d k = None \<Longrightarrow> dict_get d k = Inl KeyError"
  by (simp add: dict_get_def)

lemma update_fresh: "k \<notin> fst ` set al \<Longrightarrow> AList.update k v al = al @ [(k, v)]"
  by (induction al) auto

lemma fold_dict_set_distinct:
  "distinct (map fst (acc @ ps)) \<Longrightarrow> fold (\<lambda>(k, v) d. dict_set k v d) ps acc = acc @ ps"
proof (induction ps arbitrary: acc)
  case Nil
  then show ?case by simp
next
  case (Cons kv ps)
  obtain k v where kv: "kv = (k, v)" by (cases kv)
  from Cons.prems have "k \<notin> fst ` set acc" by (auto simp: kv)
  then have "dict_set k v acc = acc @ [(k, v)]"
    by (simp add: dict_set_def update_fresh)
  moreover from Cons.prems have "distinct (map fst ((acc @ [(k, v)]) @ ps))" by (simp add: kv)
  ultimately show ?case using Cons.IH [of "acc @ [(k, v)]"] by (simp add: kv)
qed

lemma dict_of_pairs_distinct: "distinct (map fst ps) \<Longrightarrow> dict_of_pairs ps = ps"
  using fold_dict_set_distinct [of "[]" ps] by (simp add: dict_of_pairs_def)

lemma fold_dict_set_dom:
  "dom (map_of (fold (\<lambda>(k, v) d. dict_set k v d) ps acc)) = dom (map_of acc) \<union> fst ` set ps"
  by (induction ps arbitrary: acc) (auto simp: dom_def)

lemma fold_dict_set_values:
  "map_of (fold (\<lambda>(k, v) d. dict_set k v d) ps acc) k = Some w \<Longrightarrow>
   w \<in> snd ` set ps \<or> map_of acc k = Some w"
proof (induction ps arbitrary: acc)
  case Nil
  then show ?case by simp
next
  case (Cons kv ps)
  obtain k' v' where kv: "kv = (k', v')" by (cases kv)
  from Cons.prems have "map_of (fold (\<lambda>(k, v) d. dict_set k v d) ps (dict_set k' v' acc)) k = Some w"
    by (simp add: kv)
  from Cons.IH [OF this] show ?case
    by (auto simp: kv split: if_splits)
qed

lemma dict_of_pairs_dom: "dom (map_of (dict_of_pairs ps)) = fst ` set ps"
  by (simp add: dict_of_pairs_def fold_dict_set_dom)

lemma dict_of_pairs_values: "map_of (dict_of_pairs ps) k = Some w \<Longrightarrow> w \<in> snd ` set ps"
  using fold_dict_set_values [of ps "[]" k w] by (simp add: dict_of_pairs_def)

lemma dict_max_value_Max: "d \<noteq> [] \<Longrightarrow> dict_max_value d = Inr (Max (snd ` set d))"
proof (cases d)
  case Nil
  assume "d \<noteq> []" with Nil show ?thesis by simp
next
  case (Cons kv rest)
  obtain k v where kv: "kv = (k, v)" by (cases kv)
  have "fold max (map snd rest) v = Max (set (v # map snd rest))"
    by (rule Max.set_eq_fold [symmetric])
  then show ?thesis by (simp add: dict_max_value_def Cons kv)
qed

subsection \<open>The initial table and its inverse\<close>

lemma initial_table_zip:
  "map (\<lambda>i. ([us ! i], i)) [0..<length us] = zip (map (\<lambda>c. [c]) us) [0..<length us]"
  by (rule nth_equalityI) simp_all

lemma initial_table_built:
  assumes "distinct us"
  shows "dict_of_pairs (map (\<lambda>i. ([us ! i], i)) [0..<length us]) =
         zip (map (\<lambda>c. [c]) us) [0..<length us]"
proof -
  have "distinct (map (\<lambda>c. [c]) us)"
    using assms by (simp add: distinct_map inj_on_def)
  then have "distinct (map fst (zip (map (\<lambda>c. [c]) us) [0..<length us]))" by simp
  then show ?thesis by (simp add: initial_table_zip dict_of_pairs_distinct)
qed

lemma initial_table_max:
  assumes "us \<noteq> []"
  shows "dict_max_value (zip (map (\<lambda>c. [c]) us) [0..<length us]) = Inr (length us - 1)"
proof -
  let ?t = "zip (map (\<lambda>c. [c]) us) [0..<length us]"
  from assms have ne: "?t \<noteq> []" by (cases us) (simp_all add: upt_rec)
  have "map snd ?t = [0..<length us]" by simp
  then have "set (map snd ?t) = {0..<length us}" by (simp only: set_upt)
  then have "snd ` set ?t = {0..<length us}" by (simp only: set_map)
  moreover have "Max {0..<length us} = length us - 1"
    using assms by (intro Max_eqI) auto
  ultimately show ?thesis using ne by (simp add: dict_max_value_Max)
qed

lemma reversed_table_built:
  "dict_of_pairs (map (\<lambda>(key, value). (value, key)) (zip (map (\<lambda>c. [c]) us) [0..<length us])) =
   zip [0..<length us] (map (\<lambda>c. [c]) us)"
proof -
  have "map (\<lambda>(key, value). (value, key)) (zip (map (\<lambda>c. [c]) us) [0..<length us]) =
        zip [0..<length us] (map (\<lambda>c. [c]) us)"
    by (simp add: zip_commute [of "[0..<length us]"] prod.swap_def case_prod_unfold)
  moreover have "distinct (map fst (zip [0..<length us] (map (\<lambda>c. [c]) us)))" by simp
  ultimately show ?thesis by (simp add: dict_of_pairs_distinct)
qed

lemma initial_table_inverse:
  assumes "map_of (zip (map (\<lambda>c. [c]) us) [0..<length us]) w = Some k"
  shows "map_of (zip [0..<length us] (map (\<lambda>c. [c]) us)) k = Some w \<and> k < length us"
proof -
  from assms have "(w, k) \<in> set (zip (map (\<lambda>c. [c]) us) [0..<length us])"
    by (rule map_of_SomeD)
  then have "(k, w) \<in> set (zip [0..<length us] (map (\<lambda>c. [c]) us))"
    by (force simp: zip_commute [of "[0..<length us]"])
  moreover from this have "k < length us"
    by (auto dest: set_zip_leftD)
  moreover have "distinct (map fst (zip [0..<length us] (map (\<lambda>c. [c]) us)))" by simp
  ultimately show ?thesis by simp
qed

lemma initial_table_top:
  assumes "length us \<le> k"
  shows "map_of (zip [0..<length us] (map (\<lambda>c. [c]) us)) k = None"
proof -
  have "k \<notin> fst ` set (zip [0..<length us] (map (\<lambda>c. [c]) us))"
    using assms by (auto dest: set_zip_leftD)
  then show ?thesis by (simp add: map_of_eq_None_iff)
qed

lemma initial_table_symbol:
  assumes "c \<in> set us"
  shows "map_of (zip (map (\<lambda>c. [c]) us) [0..<length us]) [c] \<noteq> None"
proof -
  let ?t = "zip (map (\<lambda>c. [c]) us) [0..<length us]"
  have "map fst ?t = map (\<lambda>c. [c]) us" by simp
  then have "set (map fst ?t) = set (map (\<lambda>c. [c]) us)" by (rule arg_cong)
  then have "fst ` set ?t = (\<lambda>c. [c]) ` set us" by (simp only: set_map)
  then show ?thesis using assms by (simp add: map_of_eq_None_iff)
qed

subsection \<open>One pass through the encoder's loop\<close>

lemma compress_step_extend:
  "map_of (table st) (prefix st @ [c]) \<noteq> None \<Longrightarrow>
   compress_step c st = Inr (st\<lparr>prefix := prefix st @ [c]\<rparr>)"
  by (simp add: compress_step_def dict_contains_def)

lemma compress_step_emit:
  assumes "map_of (table st) (prefix st @ [c]) = None"
    and "map_of (table st) (prefix st) = Some k"
  shows "compress_step c st =
    Inr (if table_size st > max_table_size - 1
         then st\<lparr>compressed_data := compressed_data st @ [k], prefix := [c]\<rparr>
         else st\<lparr>compressed_data := compressed_data st @ [k],
                 table := dict_set (prefix st @ [c]) (table_size st) (table st),
                 table_size := table_size st + 1, prefix := [c]\<rparr>)"
  using assms by (simp add: compress_step_def dict_contains_def dict_get_Some Let_def)

lemma compress_step_emit_props:
  assumes "map_of (table es) (prefix es @ [c]) = None"
    and "map_of (table es) (prefix es) = Some k"
  obtains es1 where "compress_step c es = Inr es1"
    and "compressed_data es1 = compressed_data es @ [k]"
    and "prefix es1 = [c]"
    and "\<forall>w. map_of (table es) w \<noteq> None \<longrightarrow> map_of (table es1) w \<noteq> None"
proof (cases "table_size es > max_table_size - 1")
  case True
  with assms show ?thesis
    by (intro that [of "es\<lparr>compressed_data := compressed_data es @ [k], prefix := [c]\<rparr>"])
       (simp_all add: compress_step_emit)
next
  case False
  with assms show ?thesis
    by (intro that [of "es\<lparr>compressed_data := compressed_data es @ [k],
                 table := dict_set (prefix es @ [c]) (table_size es) (table es),
                 table_size := table_size es + 1, prefix := [c]\<rparr>"])
       (simp_all add: compress_step_emit)
qed

lemma compress_step_initial_table:
  "compress_step c st = Inr st' \<Longrightarrow> initial_table st' = initial_table st"
  by (auto simp: compress_step_def bind_err_def Let_def split: if_splits sum.splits)

lemma compress_loop_initial_table:
  "compress_loop cs st = Inr st' \<Longrightarrow> initial_table st' = initial_table st"
proof (induction cs arbitrary: st)
  case Nil
  then show ?case by simp
next
  case (Cons c cs)
  then show ?case
    by (cases "compress_step c st") (auto dest: compress_step_initial_table)
qed

lemma compress_run_initial_table:
  assumes "distinct us" "compress_run us s = Inr es"
  shows "initial_table es = zip (map (\<lambda>c. [c]) us) [0..<length us]"
proof -
  let ?T0 = "zip (map (\<lambda>c. [c]) us) [0..<length us]"
  from assms(2) obtain m st where
    loop: "compress_loop s \<lparr>table = ?T0, table_size = m + 1, compressed_data = [],
                        initial_table = ?T0, prefix = []\<rparr> = Inr st"
    and es: "initial_table es = initial_table st"
    by (auto simp: compress_run_def initial_table_built [OF assms(1)] bind_err_def Let_def
        split: sum.splits if_splits)
  from compress_loop_initial_table [OF loop] es show ?thesis by simp
qed

lemma compress_step_frozen:
  assumes "max_table_size \<le> table_size st" "compress_step c st = Inr st'"
  shows "table st' = table st \<and> table_size st' = table_size st"
  using assms
  by (auto simp: compress_step_def bind_err_def Let_def max_table_size_def split: if_splits sum.splits)

lemma compress_loop_frozen:
  assumes "max_table_size \<le> table_size st" "compress_loop cs st = Inr st'"
  shows "table st' = table st \<and> table_size st' = table_size st"
  using assms
proof (induction cs arbitrary: st)
  case Nil
  then show ?case by simp
next
  case (Cons c cs)
  from Cons.prems(2) obtain st1 where step: "compress_step c st = Inr st1"
    and loop: "compress_loop cs st1 = Inr st'"
    by (cases "compress_step c st") auto
  from compress_step_frozen [OF Cons.prems(1) step]
  have "table st1 = table st" "table_size st1 = table_size st" by simp_all
  with Cons.IH [of st1] Cons.prems(1) loop show ?case by simp
qed

lemma compress_step_bounded:
  assumes "enc_bounded st" "compress_step c st = Inr st'"
  shows "enc_bounded st'"
proof (cases "map_of (table st) (prefix st @ [c]) = None")
  case False
  then have "st' = st\<lparr>prefix := prefix st @ [c]\<rparr>"
    using assms(2) by (simp add: compress_step_extend)
  with assms(1) show ?thesis by (simp add: enc_bounded_def)
next
  case True
  with assms(2) obtain k where k: "map_of (table st) (prefix st) = Some k"
    by (cases "map_of (table st) (prefix st)")
       (auto simp: compress_step_def dict_contains_def dict_get_def)
  with assms(1) have kn: "k < table_size st" by (simp add: enc_bounded_def)
  show ?thesis
  proof (cases "table_size st > max_table_size - 1")
    case True
    with assms(2) \<open>map_of (table st) (prefix st @ [c]) = None\<close> k
    have "st' = st\<lparr>compressed_data := compressed_data st @ [k], prefix := [c]\<rparr>"
      by (simp add: compress_step_emit)
    with assms(1) kn show ?thesis by (auto simp: enc_bounded_def)
  next
    case False
    with assms(2) \<open>map_of (table st) (prefix st @ [c]) = None\<close> k
    have "st' = st\<lparr>compressed_data := compressed_data st @ [k],
                 table := dict_set (prefix st @ [c]) (table_size st) (table st),
                 table_size := table_size st + 1, prefix := [c]\<rparr>"
      by (simp add: compress_step_emit)
    moreover from False have "table_size st + 1 \<le> max_table_size"
      by (simp add: max_table_size_def)
    ultimately show ?thesis using assms(1) kn
      by (auto simp: enc_bounded_def less_Suc_eq)
  qed
qed

lemma compress_loop_bounded:
  assumes "enc_bounded st" "compress_loop cs st = Inr st'"
  shows "enc_bounded st'"
  using assms
proof (induction cs arbitrary: st)
  case Nil
  then show ?case by simp
next
  case (Cons c cs)
  from Cons.prems(2) obtain st1 where step: "compress_step c st = Inr st1"
    and loop: "compress_loop cs st1 = Inr st'"
    by (cases "compress_step c st") auto
  from Cons.prems(1) step have "enc_bounded st1" by (rule compress_step_bounded)
  then show ?case using loop by (rule Cons.IH)
qed

lemma compress_run_bounded:
  assumes dist: "distinct us" and len: "length us \<le> max_table_size"
    and run: "compress_run us s = Inr es"
  shows "\<forall>d\<in>set (compressed_data es). d < max_table_size"
proof -
  let ?T0 = "zip (map (\<lambda>c. [c]) us) [0..<length us]"
  from run obtain m where m: "dict_max_value ?T0 = Inr m"
    by (cases "dict_max_value ?T0")
       (auto simp: compress_run_def initial_table_built [OF dist] Let_def)
  then have us: "us \<noteq> []" by (auto simp: dict_max_value_def)
  with m have "m = length us - 1" by (simp add: initial_table_max)
  with us have m': "Suc m = length us" by (cases us) simp_all
  let ?st0 = "\<lparr>table = ?T0, table_size = m + 1, compressed_data = [],
               initial_table = ?T0, prefix = []\<rparr>"
  from run m obtain st where loop: "compress_loop s ?st0 = Inr st"
    and fin: "if prefix st \<noteq> []
              then bind_err (dict_get (table st) (prefix st)) (\<lambda>code.
                    Inr (st\<lparr>compressed_data := compressed_data st @ [code]\<rparr>)) = Inr es
              else st = es"
    by (cases "compress_loop s ?st0")
       (auto simp: compress_run_def initial_table_built [OF dist] Let_def split: if_splits)
  have "enc_bounded ?st0"
    using initial_table_inverse [of us] len by (simp add: enc_bounded_def m')
  then have b: "enc_bounded st" using loop by (rule compress_loop_bounded)
  show ?thesis
  proof (cases "prefix st = []")
    case True
    with fin b show ?thesis by (auto simp: enc_bounded_def)
  next
    case False
    with fin obtain k where k: "map_of (table st) (prefix st) = Some k"
      and es: "es = st\<lparr>compressed_data := compressed_data st @ [k]\<rparr>"
      by (cases "map_of (table st) (prefix st)") (auto simp: dict_get_def)
    from b k have "k < table_size st" by (simp add: enc_bounded_def)
    moreover from b have "table_size st \<le> max_table_size" by (simp add: enc_bounded_def)
    ultimately have "k < max_table_size" by simp
    with b show ?thesis by (simp add: enc_bounded_def es)
  qed
qed

subsection \<open>One pass through the decoder's loop\<close>

lemma uncompress_step_known:
  assumes "map_of (table ds) k = Some p" "p \<noteq> []"
  shows "uncompress_step k ds = Inr (decoded p ds)"
  using assms by (cases p) (simp_all add: uncompress_step_def dict_contains_def dict_get_Some decoded_def)

lemma uncompress_step_next:
  assumes "map_of (table ds) (table_size ds) = None" "previous ds \<noteq> []"
  shows "uncompress_step (table_size ds) ds = Inr (decoded (previous ds @ [hd (previous ds)]) ds)"
  using assms by (cases "previous ds") (simp_all add: uncompress_step_def dict_contains_def decoded_def)

lemma uncompress_step_rejected:
  assumes "k \<notin> dom (map_of (table ds))" and "k \<noteq> table_size ds"
  shows "uncompress_step k ds = Inl ValueError_bad_compression"
  using assms by (auto simp: uncompress_step_def dict_contains_def)

lemma uncompress_step_accepted:
  assumes "decoder_ready ds"
    and "k \<in> dom (map_of (table ds)) \<or> k = table_size ds"
  shows "\<exists>ds'. uncompress_step k ds = Inr ds' \<and> decoder_ready ds' \<and>
           dom (map_of (table ds')) = insert (table_size ds) (dom (map_of (table ds))) \<and>
           table_size ds' = Suc (table_size ds)"
proof (cases "k \<in> dom (map_of (table ds))")
  case True
  then obtain w where w: "map_of (table ds) k = Some w" by blast
  with assms(1) have "w \<noteq> []" by (simp add: decoder_ready_def)
  with w have "uncompress_step k ds = Inr (decoded w ds)"
    by (rule uncompress_step_known)
  moreover have "decoder_ready (decoded w ds)"
    using assms(1) \<open>w \<noteq> []\<close> by (simp add: decoder_ready_def decoded_def)
  ultimately show ?thesis by (simp add: decoded_def)
next
  case False
  with assms(2) have k: "k = table_size ds" and none: "map_of (table ds) (table_size ds) = None"
    by auto
  from assms(1) have prev: "previous ds \<noteq> []" by (simp add: decoder_ready_def)
  let ?w = "previous ds @ [hd (previous ds)]"
  have "uncompress_step k ds = Inr (decoded ?w ds)"
    using uncompress_step_next [OF none prev] k by simp
  moreover have "decoder_ready (decoded ?w ds)"
    using assms(1) by (simp add: decoder_ready_def decoded_def)
  ultimately show ?thesis by (simp add: decoded_def)
qed

lemma uncompress_loop_accepted:
  assumes "decoder_ready ds"
  shows "if codes_accepted (dom (map_of (table ds))) (table_size ds) ks
         then \<exists>ds'. uncompress_loop ks ds = Inr ds'
         else uncompress_loop ks ds = Inl ValueError_bad_compression"
  using assms
proof (induction ks arbitrary: ds)
  case Nil
  then show ?case by simp
next
  case (Cons k ks)
  show ?case
  proof (cases "k \<in> dom (map_of (table ds)) \<or> k = table_size ds")
    case True
    with Cons.prems obtain ds1 where step: "uncompress_step k ds = Inr ds1"
      and ready: "decoder_ready ds1"
      and keys: "dom (map_of (table ds1)) = insert (table_size ds) (dom (map_of (table ds)))"
      and size: "table_size ds1 = Suc (table_size ds)"
      using uncompress_step_accepted by blast
    from Cons.IH [OF ready] True show ?thesis
      by (simp add: step keys size)
  next
    case False
    then have "uncompress_step k ds = Inl ValueError_bad_compression"
      by (simp add: uncompress_step_rejected)
    with False show ?thesis by simp
  qed
qed

lemma uncompress_step_args:
  "uncompress_step k (ds\<lparr>arg_compressed_data := x\<rparr>) =
   bind_err (uncompress_step k ds) (\<lambda>d. Inr (d\<lparr>arg_compressed_data := x\<rparr>))"
  by (simp add: uncompress_step_def bind_err_def split: list.splits sum.splits)

lemma uncompress_loop_args:
  "uncompress_loop ks (ds\<lparr>arg_compressed_data := x\<rparr>) =
   bind_err (uncompress_loop ks ds) (\<lambda>d. Inr (d\<lparr>arg_compressed_data := x\<rparr>))"
proof (induction ks arbitrary: ds)
  case Nil
  then show ?case by simp
next
  case (Cons k ks)
  then show ?case
    by (cases "uncompress_step k ds") (simp_all add: uncompress_step_args)
qed

lemma uncompress_step_frame:
  "uncompress_step k ds = Inr ds' \<Longrightarrow>
   arg_compressed_data ds' = arg_compressed_data ds \<and> arg_table ds' = arg_table ds"
  by (auto simp: uncompress_step_def bind_err_def split: if_splits sum.splits list.splits)

lemma uncompress_loop_frame:
  "uncompress_loop ks ds = Inr ds' \<Longrightarrow>
   arg_compressed_data ds' = arg_compressed_data ds \<and> arg_table ds' = arg_table ds"
proof (induction ks arbitrary: ds)
  case Nil
  then show ?case by simp
next
  case (Cons k ks)
  then show ?case
    by (cases "uncompress_step k ds") (auto dest: uncompress_step_frame)
qed

lemma uncompress_step_grows:
  "uncompress_step k ds = Inr ds' \<Longrightarrow>
   table_size ds' = table_size ds + 1 \<and> map_of (table ds') (table_size ds) \<noteq> None"
  by (auto simp: uncompress_step_def bind_err_def split: if_splits sum.splits list.splits)

lemma uncompress_loop_grows:
  "uncompress_loop ks ds = Inr ds' \<Longrightarrow> table_size ds' = table_size ds + length ks"
proof (induction ks arbitrary: ds)
  case Nil
  then show ?case by simp
next
  case (Cons k ks)
  then show ?case
    by (cases "uncompress_step k ds") (auto dest: uncompress_step_grows)
qed

lemma uncompress_run_table_size:
  assumes "uncompress_run compressed_data0 table0 = Inr ds"
  shows "table_size ds = Max (snd ` set table0) + length compressed_data0"
proof -
  from assms have ne: "table0 \<noteq> []"
    by (auto simp: uncompress_run_def dict_max_value_def)
  from assms obtain first popped where cd: "compressed_data0 = first # popped"
    by (cases compressed_data0) (auto simp: uncompress_run_def bind_err_def split: sum.splits)
  from assms obtain ds0 where "uncompress_loop popped ds0 = Inr ds"
    and "table_size ds0 = Max (snd ` set table0) + 1"
    by (auto simp: uncompress_run_def dict_max_value_Max [OF ne] bind_err_def cd Let_def
        split: sum.splits)
  then show ?thesis
    using uncompress_loop_grows [of popped ds0 ds] by (simp add: cd)
qed

lemma uncompress_step_keys:
  "uncompress_step k ds = Inr ds' \<Longrightarrow>
   dom (map_of (table ds')) = insert (table_size ds) (dom (map_of (table ds)))"
  by (auto simp: uncompress_step_def bind_err_def split: if_splits sum.splits list.splits)

lemma uncompress_loop_keys:
  "uncompress_loop ks ds = Inr ds' \<Longrightarrow>
   dom (map_of (table ds')) =
     dom (map_of (table ds)) \<union> {table_size ds..<table_size ds + length ks}"
proof (induction ks arbitrary: ds)
  case Nil
  then show ?case by simp
next
  case (Cons k ks)
  from Cons.prems obtain ds1 where step: "uncompress_step k ds = Inr ds1"
    and loop: "uncompress_loop ks ds1 = Inr ds'"
    by (cases "uncompress_step k ds") auto
  from step have "table_size ds1 = table_size ds + 1"
    and "dom (map_of (table ds1)) = insert (table_size ds) (dom (map_of (table ds)))"
    by (simp_all add: uncompress_step_grows uncompress_step_keys)
  with Cons.IH [OF loop] show ?case by auto
qed

lemma uncompress_run_keys:
  assumes "uncompress_run compressed_data0 table0 = Inr ds"
  shows "dom (map_of (table ds)) =
     snd ` set table0 \<union>
     {Max (snd ` set table0) + 1..<Max (snd ` set table0) + length compressed_data0}"
proof -
  from assms have ne: "table0 \<noteq> []"
    by (auto simp: uncompress_run_def dict_max_value_def)
  from assms obtain first popped where cd: "compressed_data0 = first # popped"
    by (cases compressed_data0) (auto simp: uncompress_run_def bind_err_def split: sum.splits)
  from assms obtain ds0 where "uncompress_loop popped ds0 = Inr ds"
    and "table_size ds0 = Max (snd ` set table0) + 1"
    and "table ds0 = dict_of_pairs (map (\<lambda>(key, value). (value, key)) table0)"
    by (auto simp: uncompress_run_def dict_max_value_Max [OF ne] bind_err_def cd Let_def
        split: sum.splits)
  moreover have "dom (map_of (dict_of_pairs (map (\<lambda>(key, value). (value, key)) table0))) =
    snd ` set table0"
    by (force simp: dict_of_pairs_dom)
  ultimately show ?thesis
    using uncompress_loop_keys [of popped ds0 ds] by (simp add: cd)
qed

lemma codes_accepted_upt: "codes_accepted keys n [n..<m]"
proof (induction "m - n" arbitrary: n keys)
  case 0
  then show ?case by simp
next
  case (Suc d)
  then have "n < m" by simp
  then have "[n..<m] = n # [Suc n..<m]" by (rule upt_conv_Cons)
  moreover from Suc have "codes_accepted (insert n keys) (Suc n) [Suc n..<m]" by simp
  ultimately show ?case by simp
qed

lemma codes_accepted_append:
  "codes_accepted keys n (xs @ ys) \<longleftrightarrow>
   codes_accepted keys n xs \<and>
   codes_accepted (keys \<union> {n..<n + length xs}) (n + length xs) ys"
proof (induction xs arbitrary: keys n)
  case Nil
  then show ?case by simp
next
  case (Cons x xs)
  have "insert n keys \<union> {Suc n..<Suc n + length xs} = keys \<union> {n..<n + length (x # xs)}"
    by auto
  with Cons show ?case by simp
qed

section \<open>The decoder follows the encoder\<close>

lemma sync_decode:
  assumes "lzw_sync es ds" "map_of (table es) (prefix es) = Some k"
  shows "uncompress_step k ds = Inr (decoded (prefix es) ds)"
proof -
  let ?p = "prefix es" and ?prev = "previous ds" and ?m = "table_size ds"
  from assms(1) have p: "?p \<noteq> []" and prev: "?prev \<noteq> []"
    and top: "\<forall>k \<ge> ?m. map_of (table ds) k = None"
    by (simp_all add: lzw_sync_def)
  from assms(1) obtain T' where
    inv: "\<forall>w k. T' w = Some k \<longrightarrow> map_of (table ds) k = Some w \<and> k < ?m"
    and T: "map_of (table es) = T' \<or> map_of (table es) = T'(?prev @ [hd ?p] \<mapsto> ?m)"
    unfolding lzw_sync_def by blast
  show ?thesis
  proof (cases "T' ?p = Some k")
    case True
    with inv have "map_of (table ds) k = Some ?p" by blast
    then show ?thesis using p by (rule uncompress_step_known)
  next
    case False
    with T assms(2) have e: "?p = ?prev @ [hd ?p]" and k: "k = ?m"
      by (auto split: if_splits)
    from e prev have "hd ?p = hd ?prev"
      by (metis hd_append2)
    with e have "?p = ?prev @ [hd ?prev]" by simp
    moreover from top have "map_of (table ds) ?m = None" by simp
    ultimately show ?thesis
      using uncompress_step_next [OF _ prev, of ] k by simp
  qed
qed

lemma sync_extend:
  assumes "lzw_sync es ds" "map_of (table es) (prefix es @ [c]) \<noteq> None"
  shows "lzw_sync (es\<lparr>prefix := prefix es @ [c]\<rparr>) ds"
  using assms unfolding lzw_sync_def by simp

lemma sync_table:
  assumes "lzw_sync es ds" "map_of (table es) w = Some k"
  shows "map_of (table (decoded (prefix es) ds)) k = Some w \<and> k < table_size ds + 1"
proof -
  let ?p = "prefix es" and ?prev = "previous ds" and ?m = "table_size ds"
  from assms(1) obtain T' where
    inv: "\<forall>w k. T' w = Some k \<longrightarrow> map_of (table ds) k = Some w \<and> k < ?m"
    and T: "map_of (table es) = T' \<or> map_of (table es) = T'(?prev @ [hd ?p] \<mapsto> ?m)"
    unfolding lzw_sync_def by blast
  show ?thesis
  proof (cases "T' w = Some k")
    case True
    with inv have "map_of (table ds) k = Some w" "k < ?m" by blast+
    then show ?thesis by (simp add: decoded_def)
  next
    case False
    with T assms(2) have "w = ?prev @ [hd ?p]" "k = ?m"
      by (auto split: if_splits)
    then show ?thesis by (simp add: decoded_def)
  qed
qed

lemma sync_top:
  assumes "lzw_sync es ds" "table_size ds + 1 \<le> k"
  shows "map_of (table (decoded p ds)) k = None"
  using assms unfolding lzw_sync_def by (simp add: decoded_def)

lemma sync_emit:
  assumes sync: "lzw_sync es ds"
    and miss: "map_of (table es) (prefix es @ [c]) = None"
    and hit: "map_of (table es) (prefix es) = Some k"
    and sym: "map_of (table es) [c] \<noteq> None"
    and step: "compress_step c es = Inr es1"
  shows "lzw_sync es1 (decoded (prefix es) ds)"
proof -
  let ?p = "prefix es" and ?ds1 = "decoded (prefix es) ds"
  from sync have p: "?p \<noteq> []" by (simp add: lzw_sync_def)
  have inv1: "\<forall>w k. map_of (table es) w = Some k \<longrightarrow>
      map_of (table ?ds1) k = Some w \<and> k < table_size ?ds1"
    using sync_table [OF sync] by (simp add: decoded_def)
  have top1: "\<forall>k \<ge> table_size ?ds1. map_of (table ?ds1) k = None"
    using sync_top [OF sync] by (simp add: decoded_def)
  have prev1: "previous ?ds1 = ?p" and m1: "table_size ?ds1 = table_size ds + 1"
    by (simp_all add: decoded_def)
  show ?thesis
  proof (cases "table_size es > max_table_size - 1")
    case True
    with step miss hit have es1: "es1 = es\<lparr>compressed_data := compressed_data es @ [k], prefix := [c]\<rparr>"
      by (simp add: compress_step_emit)
    show ?thesis
      unfolding lzw_sync_def
      using inv1 top1 True sym p by (auto simp: es1 prev1)
  next
    case False
    with step miss hit have es1: "es1 = es\<lparr>compressed_data := compressed_data es @ [k],
                 table := dict_set (prefix es @ [c]) (table_size es) (table es),
                 table_size := table_size es + 1, prefix := [c]\<rparr>"
      by (simp add: compress_step_emit)
    from False sync have n: "table_size es = table_size ds + 1"
      unfolding lzw_sync_def by auto
    have "map_of (table es1) = (map_of (table es))(previous ?ds1 @ [hd (prefix es1)] \<mapsto> table_size ?ds1)
       \<and> table_size es1 = table_size ?ds1 + 1"
      by (simp add: es1 prev1 m1 n)
    moreover have "map_of (table es1) (prefix es1) \<noteq> None"
      using sym p by (simp add: es1)
    moreover have "prefix es1 \<noteq> []" "previous ?ds1 \<noteq> []"
      using p by (simp_all add: es1 prev1)
    ultimately show ?thesis
      unfolding lzw_sync_def using inv1 top1 by blast
  qed
qed

lemma sync_loop:
  assumes "lzw_sync es ds" "\<forall>c\<in>set cs. map_of (table es) [c] \<noteq> None"
  shows "\<exists>es' code codes ds'.
    compress_loop cs es = Inr es' \<and> prefix es' \<noteq> [] \<and>
    map_of (table es') (prefix es') = Some code \<and>
    compressed_data es' @ [code] = compressed_data es @ codes \<and>
    uncompress_loop codes ds = Inr ds' \<and>
    uncompressed_data ds' = uncompressed_data ds @ prefix es @ cs"
  using assms
proof (induction cs arbitrary: es ds)
  case Nil
  from Nil.prems(1) obtain k where k: "map_of (table es) (prefix es) = Some k"
    and p: "prefix es \<noteq> []"
    unfolding lzw_sync_def by blast
  have "uncompress_loop [k] ds = Inr (decoded (prefix es) ds)"
    using sync_decode [OF Nil.prems(1) k] by simp
  moreover have "uncompressed_data (decoded (prefix es) ds) = uncompressed_data ds @ prefix es @ []"
    by (simp add: decoded_def)
  ultimately show ?case using k p
    by (intro exI [of _ es] exI [of _ k] exI [of _ "[k]"] exI [of _ "decoded (prefix es) ds"]) simp
next
  case (Cons c cs)
  note sync = Cons.prems(1)
  show ?case
  proof (cases "map_of (table es) (prefix es @ [c]) = None")
    case False
    let ?es0 = "es\<lparr>prefix := prefix es @ [c]\<rparr>"
    have step: "compress_step c es = Inr ?es0"
      using False by (rule compress_step_extend)
    have "lzw_sync ?es0 ds"
      using sync False by (rule sync_extend)
    moreover have "\<forall>c\<in>set cs. map_of (table ?es0) [c] \<noteq> None"
      using Cons.prems(2) by simp
    ultimately obtain es' code codes ds' where
      "compress_loop cs ?es0 = Inr es'" "prefix es' \<noteq> []"
      "map_of (table es') (prefix es') = Some code"
      "compressed_data es' @ [code] = compressed_data ?es0 @ codes"
      "uncompress_loop codes ds = Inr ds'"
      "uncompressed_data ds' = uncompressed_data ds @ prefix ?es0 @ cs"
      using Cons.IH [of ?es0 ds] by blast
    then show ?thesis
      by (intro exI [of _ es'] exI [of _ code] exI [of _ codes] exI [of _ ds'])
         (simp add: step)
  next
    case True
    from sync obtain k where k: "map_of (table es) (prefix es) = Some k"
      unfolding lzw_sync_def by blast
    from True k obtain es1 where step: "compress_step c es = Inr es1"
      and cd1: "compressed_data es1 = compressed_data es @ [k]"
      and p1: "prefix es1 = [c]"
      and mono: "\<forall>w. map_of (table es) w \<noteq> None \<longrightarrow> map_of (table es1) w \<noteq> None"
      by (rule compress_step_emit_props)
    let ?ds1 = "decoded (prefix es) ds"
    have "map_of (table es) [c] \<noteq> None"
      using Cons.prems(2) by simp
    with sync True k have "lzw_sync es1 ?ds1"
      using step by (rule sync_emit)
    moreover have "\<forall>c\<in>set cs. map_of (table es1) [c] \<noteq> None"
      using Cons.prems(2) mono by simp
    ultimately obtain es' code codes ds' where r:
      "compress_loop cs es1 = Inr es'" "prefix es' \<noteq> []"
      "map_of (table es') (prefix es') = Some code"
      "compressed_data es' @ [code] = compressed_data es1 @ codes"
      "uncompress_loop codes ?ds1 = Inr ds'"
      "uncompressed_data ds' = uncompressed_data ?ds1 @ prefix es1 @ cs"
      using Cons.IH [of es1 ?ds1] by blast
    have "uncompress_loop (k # codes) ds = Inr ds'"
      using sync_decode [OF sync k] r(5) by simp
    moreover have "uncompressed_data ds' = uncompressed_data ds @ prefix es @ c # cs"
      using r(6) by (simp add: p1 decoded_def)
    ultimately show ?thesis using r(1-4)
      by (intro exI [of _ es'] exI [of _ code] exI [of _ "k # codes"] exI [of _ ds'])
         (simp add: step cd1)
  qed
qed

lemma sync_first:
  assumes p: "prefix es \<noteq> []"
    and inv: "\<forall>w k. map_of (table es) w = Some k \<longrightarrow> map_of (table ds) k = Some w \<and> k < table_size es"
    and top: "\<forall>k \<ge> table_size es. map_of (table ds) k = None"
    and ds: "table_size ds = table_size es" "previous ds = prefix es"
    and miss: "map_of (table es) (prefix es @ [c]) = None"
    and hit: "map_of (table es) (prefix es) = Some k"
    and sym: "map_of (table es) [c] \<noteq> None"
    and step: "compress_step c es = Inr es1"
  shows "lzw_sync es1 ds"
proof (cases "table_size es > max_table_size - 1")
  case True
  with step miss hit have es1: "es1 = es\<lparr>compressed_data := compressed_data es @ [k], prefix := [c]\<rparr>"
    by (simp add: compress_step_emit)
  show ?thesis
    unfolding lzw_sync_def
    using inv top True sym p ds by (auto simp: es1)
next
  case False
  with step miss hit have es1: "es1 = es\<lparr>compressed_data := compressed_data es @ [k],
               table := dict_set (prefix es @ [c]) (table_size es) (table es),
               table_size := table_size es + 1, prefix := [c]\<rparr>"
    by (simp add: compress_step_emit)
  have "map_of (table es1) = (map_of (table es))(previous ds @ [hd (prefix es1)] \<mapsto> table_size ds)
     \<and> table_size es1 = table_size ds + 1"
    by (simp add: es1 ds)
  moreover have "map_of (table es1) (prefix es1) \<noteq> None"
    using sym p by (simp add: es1)
  moreover have "prefix es1 \<noteq> []" "previous ds \<noteq> []"
    using p by (simp_all add: es1 ds)
  ultimately show ?thesis
    unfolding lzw_sync_def using inv top ds(1) by auto
qed

lemma first_phase:
  fixes mk :: "'a list \<Rightarrow> 'a uncompress_state"
  assumes p: "prefix es \<noteq> []"
    and hit: "map_of (table es) (prefix es) \<noteq> None"
    and inv: "\<forall>w k. map_of (table es) w = Some k \<longrightarrow> map_of D k = Some w \<and> k < table_size es"
    and top: "\<forall>k \<ge> table_size es. map_of D k = None"
    and sym: "\<forall>c\<in>set cs. map_of (table es) [c] \<noteq> None"
    and mk: "\<forall>w. table (mk w) = D \<and> table_size (mk w) = table_size es \<and>
                  previous (mk w) = w \<and> uncompressed_data (mk w) = w"
    and empty: "compressed_data es = []"
  shows "\<exists>es' code first codes w ds'.
    compress_loop cs es = Inr es' \<and> prefix es' \<noteq> [] \<and>
    map_of (table es') (prefix es') = Some code \<and>
    compressed_data es' @ [code] = first # codes \<and>
    map_of D first = Some w \<and>
    uncompress_loop codes (mk w) = Inr ds' \<and>
    uncompressed_data ds' = prefix es @ cs"
  using p hit inv top sym mk empty
proof (induction cs arbitrary: es)
  case Nil
  from Nil.prems(2) obtain k where k: "map_of (table es) (prefix es) = Some k" by blast
  with Nil.prems(3) have "map_of D k = Some (prefix es)" by blast
  with k Nil.prems(1,6,7) show ?case
    by (intro exI [of _ es] exI [of _ k] exI [of _ k] exI [of _ "[]"] exI [of _ "prefix es"]
          exI [of _ "mk (prefix es)"]) simp
next
  case (Cons c cs)
  show ?case
  proof (cases "map_of (table es) (prefix es @ [c]) = None")
    case False
    let ?es0 = "es\<lparr>prefix := prefix es @ [c]\<rparr>"
    have step: "compress_step c es = Inr ?es0"
      using False by (rule compress_step_extend)
    have "\<exists>es' code first codes w ds'.
      compress_loop cs ?es0 = Inr es' \<and> prefix es' \<noteq> [] \<and>
      map_of (table es') (prefix es') = Some code \<and>
      compressed_data es' @ [code] = first # codes \<and>
      map_of D first = Some w \<and>
      uncompress_loop codes (mk w) = Inr ds' \<and>
      uncompressed_data ds' = prefix ?es0 @ cs"
      using False Cons.prems by (intro Cons.IH) simp_all
    then show ?thesis by (simp add: step)
  next
    case True
    from Cons.prems(2) obtain k where k: "map_of (table es) (prefix es) = Some k" by blast
    from True k obtain es1 where step: "compress_step c es = Inr es1"
      and cd1: "compressed_data es1 = compressed_data es @ [k]"
      and p1: "prefix es1 = [c]"
      and mono: "\<forall>w. map_of (table es) w \<noteq> None \<longrightarrow> map_of (table es1) w \<noteq> None"
      by (rule compress_step_emit_props)
    let ?ds = "mk (prefix es)"
    have w: "map_of D k = Some (prefix es)"
      using k Cons.prems(3) by blast
    have "lzw_sync es1 ?ds"
    proof (rule sync_first [OF Cons.prems(1) _ _ _ _ True k _ step])
      show "map_of (table es) [c] \<noteq> None" using Cons.prems(5) by simp
    qed (use Cons.prems(3,4,6) in simp_all)
    moreover have "\<forall>c\<in>set cs. map_of (table es1) [c] \<noteq> None"
      using Cons.prems(5) mono by simp
    ultimately obtain es' code codes ds' where r:
      "compress_loop cs es1 = Inr es'" "prefix es' \<noteq> []"
      "map_of (table es') (prefix es') = Some code"
      "compressed_data es' @ [code] = compressed_data es1 @ codes"
      "uncompress_loop codes ?ds = Inr ds'"
      "uncompressed_data ds' = uncompressed_data ?ds @ prefix es1 @ cs"
      using sync_loop [of es1 ?ds cs] by blast
    have "uncompressed_data ds' = prefix es @ c # cs"
      using r(6) Cons.prems(6) by (simp add: p1)
    with r(1-5) w show ?thesis
      by (intro exI [of _ es'] exI [of _ code] exI [of _ k] exI [of _ codes]
            exI [of _ "prefix es"] exI [of _ ds'])
         (simp add: step cd1 Cons.prems(7))
  qed
qed

lemma compress_run_uncompress_run:
  assumes ne: "s \<noteq> []" and dist: "distinct us" and sets: "set us = set s"
  shows "\<exists>es ds. compress_run us s = Inr es \<and>
           uncompress_run (compressed_data es) (initial_table es) = Inr ds \<and>
           uncompressed_data ds = s \<and>
           prefix es \<noteq> [] \<and> map_of (table es) (prefix es) \<noteq> None"
proof -
  let ?T0 = "zip (map (\<lambda>c. [c]) us) [0..<length us]"
  let ?D0 = "zip [0..<length us] (map (\<lambda>c. [c]) us)"
  let ?n = "length us - 1 + 1"
  from ne sets have us: "us \<noteq> []" by auto
  then have n: "Suc (length us - Suc 0) = length us" by (cases us) simp_all
  from ne obtain c cs where s: "s = c # cs" by (cases s) auto
  let ?st0 = "\<lparr>table = ?T0, table_size = ?n, compressed_data = [],
               initial_table = ?T0, prefix = []\<rparr>"
  let ?es = "?st0\<lparr>prefix := [c]\<rparr>"
  let ?mk = "\<lambda>w. \<lparr>table = ?D0, table_size = ?n, arg_compressed_data = [],
               arg_table = ?T0, uncompressed_data = w, previous = w\<rparr>"
  have sym: "\<forall>c\<in>set s. map_of ?T0 [c] \<noteq> None"
    using initial_table_symbol [of _ us] sets by blast
  have step0: "compress_step c ?st0 = Inr ?es"
    using compress_step_extend [of ?st0 c] sym by (simp add: s)
  have "\<exists>es' code first codes w ds'.
    compress_loop cs ?es = Inr es' \<and> prefix es' \<noteq> [] \<and>
    map_of (table es') (prefix es') = Some code \<and>
    compressed_data es' @ [code] = first # codes \<and>
    map_of ?D0 first = Some w \<and>
    uncompress_loop codes (?mk w) = Inr ds' \<and>
    uncompressed_data ds' = prefix ?es @ cs"
  proof (rule first_phase)
    show "\<forall>w k. map_of (table ?es) w = Some k \<longrightarrow> map_of ?D0 k = Some w \<and> k < table_size ?es"
      using initial_table_inverse [of us] by (simp add: n)
    show "\<forall>k \<ge> table_size ?es. map_of ?D0 k = None"
      using initial_table_top [of us] by (simp add: n)
    show "\<forall>c\<in>set cs. map_of (table ?es) [c] \<noteq> None"
      using sym by (simp add: s)
    show "map_of (table ?es) (prefix ?es) \<noteq> None"
      using sym by (simp add: s)
  qed simp_all
  then obtain es' code first codes w ds' where r:
    "compress_loop cs ?es = Inr es'" "prefix es' \<noteq> []"
    "map_of (table es') (prefix es') = Some code"
    "compressed_data es' @ [code] = first # codes"
    "map_of ?D0 first = Some w"
    "uncompress_loop codes (?mk w) = Inr ds'"
    "uncompressed_data ds' = s"
    by (auto simp: s)
  let ?fin = "es'\<lparr>compressed_data := compressed_data es' @ [code]\<rparr>"
  have loop: "compress_loop s ?st0 = Inr es'"
    using r(1) step0 by (simp add: s)
  have run: "compress_run us s = Inr ?fin"
    using r(2,3) loop
    by (simp add: compress_run_def initial_table_built [OF dist] initial_table_max [OF us]
        dict_get_Some)
  have it: "initial_table es' = ?T0"
    using compress_loop_initial_table [OF loop] by simp
  have "uncompress_loop codes ((?mk w)\<lparr>arg_compressed_data := codes\<rparr>) =
        Inr (ds'\<lparr>arg_compressed_data := codes\<rparr>)"
    using r(6) by (simp only: uncompress_loop_args bind_err_Inr)
  then have "uncompress_run (first # codes) ?T0 = Inr (ds'\<lparr>arg_compressed_data := codes\<rparr>)"
    using r(5)
    by (simp add: uncompress_run_def initial_table_max [OF us] reversed_table_built dict_get_Some)
  then show ?thesis
    using run r(2,3,4,7) it
    by (intro exI [of _ ?fin] exI [of _ "ds'\<lparr>arg_compressed_data := codes\<rparr>"]) simp
qed

section \<open>The round trip (C1)\<close>

text \<open>
  For every non-empty input the decoder gives back what the encoder was given, whatever
  order the set of symbols was listed in and however many symbols there are. The ceiling
  of the encoder's table does not break the law, although the decoder has no ceiling:
  the entries the decoder stores beyond the ceiling are never asked for.
\<close>

lemma uncompress_compress_nonempty:
  assumes "s \<noteq> []" and "distinct us" and "set us = set s"
  shows "uncompress_compress us s = Inr s"
proof -
  from assms obtain es ds where "compress_run us s = Inr es"
    and "uncompress_run (compressed_data es) (initial_table es) = Inr ds"
    and "uncompressed_data ds = s"
    using compress_run_uncompress_run by blast
  then show ?thesis
    by (simp add: uncompress_compress_def compress_def uncompress_def)
qed

lemma uncompress_compress_example:
  "uncompress_compress [2, 1] [1, 2, 1, 2, 1, 2, 1 :: nat] = Inr [1, 2, 1, 2, 1, 2, 1]"
  by (rule uncompress_compress_nonempty) auto

text \<open>
  C1: the round-trip law \<^verbatim>\<open>uncompress(compress(s)) == s\<close> for every finite symbol
  sequence \<open>s\<close>. It fails for the empty sequence, and by \<open>uncompress_compress_nonempty\<close>
  for no other: \<^verbatim>\<open>compress("")\<close> raises \<^verbatim>\<open>ValueError\<close> at line 63, where \<^verbatim>\<open>max\<close> is
  applied to the empty table, so nothing reaches the decoder.
\<close>

theorem uncompress_compress_empty:
  "uncompress_compress [] ([] :: nat list) = Inl ValueError_max_empty"
  by (simp add: uncompress_compress_def compress_def compress_run_def dict_of_pairs_def
      dict_max_value_def)

section \<open>Empty inputs (C5, C6)\<close>

text \<open>
  C5: \<^verbatim>\<open>compress\<close> applied to the empty string should return an empty code sequence
  and an empty table. The set of symbols of the empty string is empty, so
  \<^verbatim>\<open>unique_chars\<close> is \<open>[]\<close>; the code raises \<^verbatim>\<open>ValueError\<close> at line 63, before the loop,
  and so does \<^verbatim>\<open>compress_to_file\<close> on an empty file.
\<close>

theorem compress_empty:
  "compress [] ([] :: nat list) = Inl ValueError_max_empty \<and>
   compress_to_file [] [] = Inl ValueError_max_empty"
  by (simp add: compress_to_file_def compress_def compress_run_def dict_of_pairs_def
      dict_max_value_def)

text \<open>
  C6: \<^verbatim>\<open>uncompress\<close> applied to an empty code sequence should return the empty string.
  With the empty table the code raises \<^verbatim>\<open>ValueError\<close> at line 165; with a table of
  one symbol it raises \<^verbatim>\<open>IndexError\<close> at line 181, where the first code is popped
  unconditionally; \<^verbatim>\<open>uncompress_from_file\<close> gets there on the four bytes
  \<^verbatim>\<open>00 61 00 00\<close>, a table of one entry followed by no code.
\<close>

theorem uncompress_empty:
  "uncompress [] ([] :: (nat list, nat) dict) = Inl ValueError_max_empty \<and>
   uncompress [] [([97 :: nat], 0)] = Inl IndexError \<and>
   uncompress_from_file [0, 97, 0, 0] = Inl IndexError"
  by (simp add: uncompress_from_file_def read_file_def unpack_B_def unpack_H_def chr_def
      dict_set_def uncompress_def uncompress_run_def dict_max_value_def)

section \<open>The encoder never misses a lookup (C7)\<close>

text \<open>
  C7: for every non-empty input \<^verbatim>\<open>compress\<close> returns, and the prefix it holds at the
  end is a key of the working table. Each lookup \<^verbatim>\<open>table[prefix]\<close> of the source is a
  \<open>dict_get\<close> of the model, whose miss is the result \<open>Inl KeyError\<close>; a returned
  state therefore means that every lookup in the loop and the final one found its key.
\<close>

theorem compress_never_fails:
  assumes "s \<noteq> []" and "distinct us" and "set us = set s"
  shows "\<exists>es. compress_run us s = Inr es \<and> dict_contains (prefix es) (table es) \<and>
           compress us s = Inr (compressed_data es, initial_table es)"
proof -
  from assms obtain es where "compress_run us s = Inr es"
    and "map_of (table es) (prefix es) \<noteq> None"
    using compress_run_uncompress_run by blast
  then show ?thesis by (simp add: compress_def dict_contains_def)
qed

theorem compress_never_fails_witness:
  "[1, 2, 1, 2, 1 :: nat] \<noteq> [] \<and> distinct [2, 1 :: nat] \<and>
   set [2, 1 :: nat] = set [1, 2, 1, 2, 1] \<and>
   (\<exists>es. compress_run [2, 1] [1, 2, 1, 2, 1 :: nat] = Inr es \<and>
      dict_contains (prefix es) (table es) \<and>
      compress [2, 1] [1, 2, 1, 2, 1 :: nat] = Inr (compressed_data es, initial_table es))"
proof -
  have h: "set [2, 1 :: nat] = set [1, 2, 1, 2, 1]" by auto
  show ?thesis
    using compress_never_fails [of "[1, 2, 1, 2, 1 :: nat]" "[2, 1]"] h by simp
qed

section \<open>The initial table (C8)\<close>



section \<open>Errors of the decoder (C2)\<close>

text \<open>
  C2, as amended: for a non-empty code sequence and a non-empty table none of whose keys
  is the empty string, \<^verbatim>\<open>uncompress\<close> raises exactly when the first code is not a key
  of the inverted table (\<^verbatim>\<open>KeyError\<close>, line 181) or a later code is neither a key of the
  working table nor the next code to be assigned (\<^verbatim>\<open>ValueError\<close>, line 202); otherwise
  it returns a string.
\<close>

theorem uncompress_error_iff:
  assumes "table0 \<noteq> []" and "\<forall>(key, value)\<in>set table0. key \<noteq> []"
  shows "(isl (uncompress (first # rest) table0) \<longleftrightarrow>
           first \<notin> snd ` set table0 \<or>
           \<not> codes_accepted (snd ` set table0) (Max (snd ` set table0) + 1) rest) \<and>
         (first \<notin> snd ` set table0 \<longrightarrow> uncompress (first # rest) table0 = Inl KeyError) \<and>
         (first \<in> snd ` set table0 \<and>
          \<not> codes_accepted (snd ` set table0) (Max (snd ` set table0) + 1) rest \<longrightarrow>
            uncompress (first # rest) table0 = Inl ValueError_bad_compression)"
proof -
  let ?table1 = "dict_of_pairs (map (\<lambda>(key, value). (value, key)) table0)"
  let ?n = "Max (snd ` set table0) + 1"
  have keys: "dom (map_of ?table1) = snd ` set table0"
    by (force simp: dict_of_pairs_dom)
  have vals: "\<forall>k w. map_of ?table1 k = Some w \<longrightarrow> w \<noteq> []"
  proof (intro allI impI)
    fix k w assume "map_of ?table1 k = Some w"
    then have "w \<in> snd ` set (map (\<lambda>(key, value). (value, key)) table0)"
      by (rule dict_of_pairs_values)
    then have "w \<in> fst ` set table0" by force
    with assms(2) show "w \<noteq> []" by auto
  qed
  have run: "uncompress_run (first # rest) table0 =
        bind_err (dict_get ?table1 first) (\<lambda>current.
                uncompress_loop rest
                  \<lparr>table = ?table1, table_size = ?n,
                   arg_compressed_data = rest, arg_table = table0,
                   uncompressed_data = current, previous = current\<rparr>)"
    using assms(1) by (simp add: uncompress_run_def dict_max_value_Max Let_def)
  show ?thesis
  proof (cases "first \<in> snd ` set table0")
    case False
    with keys have "map_of ?table1 first = None" by blast
    then have "uncompress (first # rest) table0 = Inl KeyError"
      by (simp add: uncompress_def run dict_get_None)
    with False show ?thesis by simp
  next
    case True
    with keys obtain w where w: "map_of ?table1 first = Some w" by blast
    let ?ds = "\<lparr>table = ?table1, table_size = ?n,
                   arg_compressed_data = rest, arg_table = table0,
                   uncompressed_data = w, previous = w\<rparr>"
    from w vals have "decoder_ready ?ds" by (simp add: decoder_ready_def)
    from uncompress_loop_accepted [OF this, of rest]
    have "if codes_accepted (snd ` set table0) ?n rest
         then \<exists>ds'. uncompress_loop rest ?ds = Inr ds'
         else uncompress_loop rest ?ds = Inl ValueError_bad_compression"
      by (simp add: keys)
    moreover have "uncompress (first # rest) table0 =
       bind_err (uncompress_loop rest ?ds) (\<lambda>st. Inr (uncompressed_data st))"
      by (simp add: uncompress_def run dict_get_Some [OF w])
    ultimately show ?thesis using True
      by (auto split: if_splits)
  qed
qed

text \<open>One instance for each of the three outcomes.\<close>

theorem uncompress_error_iff_witness:
  "[([1 :: nat], 0 :: nat), ([2], 1)] \<noteq> [] \<and>
   [] \<notin> fst ` set [([1 :: nat], 0 :: nat), ([2], 1)] \<and>
   uncompress [5] [([1 :: nat], 0), ([2], 1)] = Inl KeyError \<and>
   uncompress [0, 7] [([1 :: nat], 0), ([2], 1)] = Inl ValueError_bad_compression \<and>
   \<not> isl (uncompress [0, 2, 1] [([1 :: nat], 0), ([2], 1)])"
proof -
  let ?t = "[([1 :: nat], 0 :: nat), ([2], 1)]"
  have t: "?t \<noteq> []" "\<forall>(key, value)\<in>set ?t. key \<noteq> []" by simp_all
  have "uncompress [5] ?t = Inl KeyError"
    using uncompress_error_iff [OF t, of 5 "[]"] by simp
  moreover have "uncompress [0, 7] ?t = Inl ValueError_bad_compression"
    using uncompress_error_iff [OF t, of 0 "[7]"] by simp
  moreover have "\<not> isl (uncompress [0, 2, 1] ?t)"
    using uncompress_error_iff [OF t, of 0 "[2, 1]"] by simp
  ultimately show ?thesis by simp
qed

text \<open>
  C2 as stated fails. In \<^verbatim>\<open>uncompress([1], {"a": 0})\<close> the only code equals the next
  code to be assigned, yet line 181 raises \<^verbatim>\<open>KeyError\<close>: the first code is looked up
  without the special case. In \<^verbatim>\<open>uncompress([0, 1], {"": 0})\<close> the first code is a key
  and the second is the next code, yet \<^verbatim>\<open>previous[0]\<close> raises \<^verbatim>\<open>IndexError\<close> at line 200.
\<close>

theorem uncompress_first_code_counterexample:
  "uncompress [1] [([97 :: nat], 0)] = Inl KeyError \<and>
   1 = Max (snd ` set [([97 :: nat], 0 :: nat)]) + 1 \<and>
   uncompress [0, 1] [([] :: nat list, 0)] = Inl IndexError \<and>
   0 \<in> snd ` set [([] :: nat list, 0 :: nat)] \<and>
   codes_accepted (snd ` set [([] :: nat list, 0 :: nat)])
     (Max (snd ` set [([] :: nat list, 0 :: nat)]) + 1) [1]"
  by (simp add: uncompress_def uncompress_run_def dict_max_value_def dict_of_pairs_def
      dict_set_def dict_get_def uncompress_step_def dict_contains_def)

section \<open>The table ceiling (C3)\<close>

text \<open>
  The encoder stops storing entries once its counter has reached \<open>max_table_size\<close>
  (\<open>compress_loop_frozen\<close>). The decoder stores one entry for every code after the
  first, whatever its counter (\<open>uncompress_run_table_size\<close>, \<open>uncompress_run_keys\<close>).
  On the table \<^verbatim>\<open>{"a": 0}\<close> it accepts every sequence of codes that starts with 0 and
  goes on by the acceptance rule:
\<close>

lemma single_symbol_run:
  assumes "codes_accepted {0} (Suc 0) rest"
  shows "\<exists>ds. uncompress_run (0 # rest) [([97 :: nat], 0)] = Inr ds \<and>
           table_size ds = Suc (length rest) \<and>
           dom (map_of (table ds)) = {0} \<union> {Suc 0..<Suc (length rest)}"
proof -
  let ?t = "[([97 :: nat], 0 :: nat)]"
  let ?ds0 = "\<lparr>table = [(0, [97 :: nat])], table_size = Suc 0,
               arg_compressed_data = rest, arg_table = ?t,
               uncompressed_data = [97], previous = [97]\<rparr>"
  have start: "uncompress_run (0 # rest) ?t = uncompress_loop rest ?ds0"
    by (simp add: uncompress_run_def dict_max_value_def dict_of_pairs_def dict_set_def
        dict_get_def)
  from assms have "codes_accepted (dom (map_of (table ?ds0))) (table_size ?ds0) rest"
    by simp
  moreover have "decoder_ready ?ds0"
    by (simp add: decoder_ready_def)
  ultimately obtain ds where "uncompress_loop rest ?ds0 = Inr ds"
    using uncompress_loop_accepted [of ?ds0 rest] by auto
  with start have run: "uncompress_run (0 # rest) ?t = Inr ds" by simp
  from uncompress_run_table_size [OF run] uncompress_run_keys [OF run] run
  show ?thesis by simp
qed

text \<open>
  C3: no entry is added once the table size has reached \<open>max_table_size\<close>, in
  \<^verbatim>\<open>compress\<close> and in \<^verbatim>\<open>uncompress\<close>. The decoder adds one: given the table
  \<^verbatim>\<open>{"a": 0}\<close>, the codes 0, 1, ..., 65535 take its counter to \<open>max_table_size\<close>, and
  when 65535 follows once more it stores an entry under the key \<open>max_table_size\<close> and
  ends with the counter one higher. The same happens at once in
  \<^verbatim>\<open>uncompress([65535, 65535], {"a": 65535})\<close>, where the counter starts at 65536.
\<close>

theorem uncompress_grows_past_ceiling:
  "(\<exists>ds. uncompress_run [0..<65536] [([97 :: nat], 0)] = Inr ds \<and>
      table_size ds = max_table_size) \<and>
   (\<exists>ds. uncompress_run ([0..<65536] @ [65535]) [([97 :: nat], 0)] = Inr ds \<and>
      table_size ds = max_table_size + 1 \<and> dict_contains max_table_size (table ds)) \<and>
   uncompress_run [65535, 65535] [([97 :: nat], 65535)] =
     Inr \<lparr>table = [(65535, [97]), (65536, [97, 97])], table_size = 65537,
          arg_compressed_data = [65535], arg_table = [([97], 65535)],
          uncompressed_data = [97, 97], previous = [97]\<rparr>"
proof -
  have upt: "[0..<65536] = 0 # [Suc 0..<65536]"
    by (rule upt_conv_Cons) simp
  have acc: "codes_accepted {0} (Suc 0) [Suc 0..<65536]"
    by (rule codes_accepted_upt)
  from single_symbol_run [OF acc]
  have full: "\<exists>ds. uncompress_run [0..<65536] [([97 :: nat], 0)] = Inr ds \<and>
      table_size ds = max_table_size"
    by (auto simp: upt [symmetric] max_table_size_def simp del: upt_rec_numeral)
  from acc have "codes_accepted {0} (Suc 0) ([Suc 0..<65536] @ [65535])"
    by (simp add: codes_accepted_append del: upt_rec_numeral)
  from single_symbol_run [OF this] obtain ds where
    run: "uncompress_run (0 # [Suc 0..<65536] @ [65535]) [([97 :: nat], 0)] = Inr ds"
    and size: "table_size ds = Suc (length ([Suc 0..<65536] @ [65535 :: nat]))"
    and keys: "dom (map_of (table ds)) =
      {0} \<union> {Suc 0..<Suc (length ([Suc 0..<65536] @ [65535 :: nat]))}"
    by blast
  from keys have "65536 \<in> dom (map_of (table ds))"
    by (simp del: upt_rec_numeral)
  then have "dict_contains max_table_size (table ds)"
    by (auto simp: dict_contains_def max_table_size_def)
  moreover from size have "table_size ds = max_table_size + 1"
    by (simp add: max_table_size_def del: upt_rec_numeral)
  moreover from run have "uncompress_run ([0..<65536] @ [65535]) [([97 :: nat], 0)] = Inr ds"
    by (simp only: upt append_Cons)
  ultimately
  have more: "\<exists>ds. uncompress_run ([0..<65536] @ [65535]) [([97 :: nat], 0)] = Inr ds \<and>
      table_size ds = max_table_size + 1 \<and> dict_contains max_table_size (table ds)"
    by blast
  have "uncompress_run [65535, 65535] [([97 :: nat], 65535)] =
     Inr \<lparr>table = [(65535, [97]), (65536, [97, 97])], table_size = 65537,
          arg_compressed_data = [65535], arg_table = [([97], 65535)],
          uncompressed_data = [97, 97], previous = [97]\<rparr>"
    by (simp add: uncompress_run_def dict_max_value_def dict_of_pairs_def dict_set_def
        dict_get_def uncompress_step_def dict_contains_def)
  with full more show ?thesis by blast
qed

section \<open>The arguments of the decoder (C10)\<close>

text \<open>
  C10, as amended: when \<^verbatim>\<open>uncompress\<close> succeeds, the caller's table is as it was, and
  the caller's list of codes has lost its first element and nothing else.
\<close>

theorem uncompress_arguments:
  assumes "uncompress_run compressed_data0 table0 = Inr ds"
  shows "arg_table ds = table0 \<and> compressed_data0 \<noteq> [] \<and>
         arg_compressed_data ds = tl compressed_data0"
proof -
  from assms obtain first popped where cd: "compressed_data0 = first # popped"
    by (cases compressed_data0) (auto simp: uncompress_run_def bind_err_def split: sum.splits)
  from assms obtain ds0 where "uncompress_loop popped ds0 = Inr ds"
    and "arg_compressed_data ds0 = popped" and "arg_table ds0 = table0"
    by (auto simp: uncompress_run_def bind_err_def cd Let_def split: sum.splits)
  then show ?thesis
    using uncompress_loop_frame [of popped ds0 ds] by (simp add: cd)
qed

theorem uncompress_arguments_witness:
  "\<exists>ds. uncompress_run [0, 1, 2] [([1 :: nat], 0), ([2], 1)] = Inr ds \<and>
     arg_table ds = [([1], 0), ([2], 1)] \<and> arg_compressed_data ds = [1, 2] \<and>
     uncompressed_data ds = [1, 2, 1, 2]"
proof -
  have run: "uncompress_run [0, 1, 2] [([1 :: nat], 0), ([2], 1)] =
     Inr \<lparr>table = [(0, [1]), (1, [2]), (2, [1, 2]), (3, [2, 1])], table_size = 4,
          arg_compressed_data = [1, 2], arg_table = [([1], 0), ([2], 1)],
          uncompressed_data = [1, 2, 1, 2], previous = [1, 2]\<rparr>"
    by (simp add: uncompress_run_def dict_max_value_def dict_of_pairs_def dict_set_def
        dict_get_def uncompress_step_def dict_contains_def)
  show ?thesis
    using uncompress_arguments [OF run] run by simp
qed

text \<open>
  C10 as stated fails: after \<^verbatim>\<open>uncompress([0], {"a": 0})\<close> the caller's list is empty,
  because line 181 pops the first code from it.
\<close>

theorem uncompress_pops_first_code:
  "uncompress_run [0] [([1 :: nat], 0)] =
     Inr \<lparr>table = [(0, [1])], table_size = 1,
          arg_compressed_data = [], arg_table = [([1], 0)],
          uncompressed_data = [1], previous = [1]\<rparr>"
  by (simp add: uncompress_run_def dict_max_value_def dict_of_pairs_def dict_set_def
      dict_get_def)

section \<open>The binary file (C4, C9)\<close>

lemma pack_B_ok: "x < 256 \<Longrightarrow> pack_B x = Inr [of_nat x]"
  by (simp add: pack_B_def)

lemma pack_H_ok: "x < 65536 \<Longrightarrow> pack_H x = Inr [of_nat (x mod 256), of_nat (x div 256)]"
  by (simp add: pack_H_def)

lemma unpack_B_of_nat: "x < 256 \<Longrightarrow> unpack_B [of_nat x] = Inr x"
  by (simp add: unpack_B_def unat_of_nat)

lemma unpack_H_of_nat:
  assumes "x < 65536"
  shows "unpack_H [of_nat (x mod 256), of_nat (x div 256)] = Inr x"
proof -
  from assms have "x div 256 < 256" by simp
  then have "unat (of_nat (x div 256) :: byte) = x div 256"
    by (simp add: unat_of_nat)
  moreover have "unat (of_nat (x mod 256) :: byte) = x mod 256"
    by (simp add: unat_of_nat)
  ultimately show ?thesis by (simp add: unpack_H_def)
qed

lemma write_table_read_table:
  assumes "\<forall>kv\<in>set t. entry_ok kv"
  shows "\<exists>bs. write_table t = Inr bs \<and>
     (\<forall>rest acc. read_table (length t) (bs @ rest) acc =
        Inr (fold (\<lambda>(k, v) d. dict_set k v d) t acc, rest))"
  using assms
proof (induction t)
  case Nil
  then show ?case by simp
next
  case (Cons kv t)
  from Cons.prems obtain c v where kv: "kv = ([c], v)" and c: "c < 65536" and v: "v < 256"
    by (cases kv) (auto simp: entry_ok_def)
  from Cons obtain bs where bs: "write_table t = Inr bs"
    and rd: "\<forall>rest acc. read_table (length t) (bs @ rest) acc =
        Inr (fold (\<lambda>(k, v) d. dict_set k v d) t acc, rest)"
    by auto
  let ?e = "[of_nat (c mod 256), of_nat (c div 256), of_nat v] :: byte list"
  have w: "write_table (kv # t) = Inr (?e @ bs)"
    by (simp add: kv ord_def pack_H_ok [OF c] pack_B_ok [OF v] bs)
  have "read_table (length (kv # t)) ((?e @ bs) @ rest) acc =
        Inr (fold (\<lambda>(k, v) d. dict_set k v d) (kv # t) acc, rest)" for rest acc
    using c by (simp add: unpack_H_of_nat [OF c] unpack_B_of_nat [OF v] chr_def rd kv)
  with w show ?case by blast
qed

lemma write_codes_read_codes:
  assumes "\<forall>d\<in>set cs. d < 65536"
  shows "\<exists>bs. write_codes cs = Inr bs \<and> (\<forall>acc. read_codes bs acc = Inr (acc @ cs))"
  using assms
proof (induction cs)
  case Nil
  then show ?case by simp
next
  case (Cons d cs)
  then obtain bs where bs: "write_codes cs = Inr bs"
    and rd: "\<forall>acc. read_codes bs acc = Inr (acc @ cs)"
    by auto
  from Cons.prems have d: "d < 65536" by simp
  have "write_codes (d # cs) = Inr ([of_nat (d mod 256), of_nat (d div 256)] @ bs)"
    by (simp add: pack_H_ok [OF d] bs)
  moreover have "read_codes ([of_nat (d mod 256), of_nat (d div 256)] @ bs) acc = Inr (acc @ d # cs)" for acc
    by (simp add: unpack_H_of_nat [OF d] rd)
  ultimately show ?case by blast
qed

lemma write_file_read_file:
  assumes ne: "t \<noteq> []" and dist: "distinct (map fst t)"
    and entries: "\<forall>kv\<in>set t. entry_ok kv"
    and dense: "Max (snd ` set t) + 1 = length t"
    and codes: "\<forall>d\<in>set cs. d < 65536"
  shows "\<exists>bs. write_file t cs = Inr bs \<and> read_file bs = Inr (t, cs)"
proof -
  from entries obtain b1 where b1: "write_table t = Inr b1"
    and r1: "\<forall>rest acc. read_table (length t) (b1 @ rest) acc =
        Inr (fold (\<lambda>(k, v) d. dict_set k v d) t acc, rest)"
    using write_table_read_table by blast
  from codes obtain b2 where b2: "write_codes cs = Inr b2"
    and r2: "\<forall>acc. read_codes b2 acc = Inr (acc @ cs)"
    using write_codes_read_codes by blast
  let ?m = "Max (snd ` set t)"
  from ne have "?m \<in> snd ` set t" by (intro Max_in) auto
  with entries have m: "?m < 256" by (auto simp: entry_ok_def)
  have w: "write_file t cs = Inr ([of_nat ?m] @ b1 @ b2)"
    using ne by (simp add: write_file_def dict_max_value_Max pack_B_ok [OF m] b1 b2)
  have "fold (\<lambda>(k, v) d. dict_set k v d) t [] = t"
    using fold_dict_set_distinct [of "[]" t] dist by simp
  with r1 have "read_table (length t) (b1 @ b2) [] = Inr (t, b2)" by simp
  moreover from dense have "Suc ?m = length t" by simp
  ultimately have rt: "read_table (Suc ?m) (b1 @ b2) [] = Inr (t, b2)" by (simp only:)
  have "read_file ([of_nat ?m] @ b1 @ b2) = Inr (t, cs)"
    by (simp add: read_file_def unpack_B_of_nat [OF m] rt r2 del: read_table.simps)
  with w show ?thesis by blast
qed

lemma dense_Max:
  assumes "t \<noteq> []" "snd ` set t = {..<length t}"
  shows "Max (snd ` set t) + 1 = length t"
proof -
  from assms(1) have "0 < length t" by simp
  then have "Max {..<length t} = length t - 1"
    by (intro Max_eqI) auto
  with assms \<open>0 < length t\<close> show ?thesis by simp
qed

lemma write_file_ok:
  assumes "t \<noteq> []" and "\<forall>kv\<in>set t. entry_ok kv" and "\<forall>d\<in>set cs. d < 65536"
  shows "\<exists>bs. write_file t cs = Inr bs"
proof -
  from assms(2) obtain b1 where b1: "write_table t = Inr b1"
    using write_table_read_table by blast
  from assms(3) obtain b2 where b2: "write_codes cs = Inr b2"
    using write_codes_read_codes by blast
  let ?m = "Max (snd ` set t)"
  from assms(1) have "?m \<in> snd ` set t" by (intro Max_in) auto
  with assms(2) have m: "?m < 256" by (auto simp: entry_ok_def)
  show ?thesis
    using assms(1) by (simp add: write_file_def dict_max_value_Max pack_B_ok [OF m] b1 b2)
qed

lemma compress_to_file_result:
  assumes ne: "s \<noteq> []" and dist: "distinct us" and sets: "set us = set s"
    and bmp: "\<forall>c\<in>set s. c < 65536"
  shows "if length us \<le> 256 then \<exists>bs. compress_to_file us s = Inr bs
         else compress_to_file us s = Inl StructError"
proof -
  let ?T0 = "zip (map (\<lambda>c. [c]) us) [0..<length us]"
  from ne dist sets obtain es where run: "compress_run us s = Inr es"
    using compress_run_uncompress_run by blast
  have it: "initial_table es = ?T0"
    using dist run by (rule compress_run_initial_table)
  have wf: "compress_to_file us s = write_file ?T0 (compressed_data es)"
    by (simp add: compress_to_file_def compress_def run it)
  from ne sets have us: "us \<noteq> []" by auto
  then have T0: "?T0 \<noteq> []" by (cases us) (simp_all add: upt_rec)
  show ?thesis
  proof (cases "length us \<le> 256")
    case True
    then have "length us \<le> max_table_size" by (simp add: max_table_size_def)
    with dist run have "\<forall>d\<in>set (compressed_data es). d < 65536"
      using compress_run_bounded [of us s es] by (simp add: max_table_size_def)
    moreover have "\<forall>kv\<in>set ?T0. entry_ok kv"
    proof
      fix kv assume kv: "kv \<in> set ?T0"
      obtain k v where eq: "kv = (k, v)" by (cases kv)
      from kv have "k \<in> set (map (\<lambda>c. [c]) us)"
        unfolding eq by (rule set_zip_leftD)
      then obtain c where "k = [c]" "c \<in> set us" by auto
      moreover from kv have "v \<in> set [0..<length us]"
        unfolding eq by (rule set_zip_rightD)
      then have "v < 256" using True by simp
      ultimately show "entry_ok kv"
        using sets bmp by (simp add: entry_ok_def eq)
    qed
    ultimately have "\<exists>bs. write_file ?T0 (compressed_data es) = Inr bs"
      using T0 by (intro write_file_ok) simp_all
    with True show ?thesis by (simp add: wf)
  next
    case False
    then have "\<not> length us - 1 \<le> 255" by simp
    then have "write_file ?T0 (compressed_data es) = Inl StructError"
      by (simp add: write_file_def initial_table_max [OF us] pack_B_def)
    with False show ?thesis by (simp add: wf)
  qed
qed

text \<open>
  C4, as amended: for every non-empty table of at most 256 entries whose keys are
  distinct single symbols with a code point below 65536 and whose codes are
  \<open>0\<close>, ..., \<open>length table0 - 1\<close>, and every sequence of codes below 65536, reading the
  bytes written gives back the table, in its order, and the codes.
\<close>

theorem binary_roundtrip:
  assumes "table0 \<noteq> []" and "length table0 \<le> 256"
    and "distinct (map fst table0)"
    and "\<forall>(key, value)\<in>set table0. length key = 1 \<and> (\<forall>c\<in>set key. c < 65536)"
    and "snd ` set table0 = {..<length table0}"
    and "\<forall>d\<in>set codes. d < 65536"
  shows "\<exists>bs. write_file table0 codes = Inr bs \<and> read_file bs = Inr (table0, codes)"
proof (rule write_file_read_file)
  show "\<forall>kv\<in>set table0. entry_ok kv"
  proof
    fix kv assume kv: "kv \<in> set table0"
    with assms(5) have "snd kv < length table0" by auto
    with assms(2) have "snd kv < 256" by simp
    moreover from kv assms(4) obtain c where "fst kv = [c]" "c < 65536"
      by (cases kv; cases "fst kv") auto
    ultimately show "entry_ok kv" by (simp add: entry_ok_def)
  qed
  show "Max (snd ` set table0) + 1 = length table0"
    using assms(1,5) by (rule dense_Max)
qed (use assms in simp_all)

theorem binary_roundtrip_witness:
  "[([97], 0), ([98], 1 :: nat)] \<noteq> [] \<and> length [([97 :: nat], 0 :: nat), ([98], 1)] \<le> 256 \<and>
   distinct (map fst [([97 :: nat], 0 :: nat), ([98], 1)]) \<and>
   list_all (\<lambda>(key, value). length key = 1 \<and> list_all (\<lambda>c. c < 65536) key)
     [([97 :: nat], 0 :: nat), ([98], 1)] \<and>
   snd ` set [([97 :: nat], 0 :: nat), ([98], 1)] = {..<length [([97 :: nat], 0 :: nat), ([98], 1)]} \<and>
   list_all (\<lambda>d. d < 65536) [0, 1, 2, 65535 :: nat] \<and>
   (\<exists>bs. write_file [([97], 0), ([98], 1)] [0, 1, 2, 65535] = Inr bs \<and>
         read_file bs = Inr ([([97], 0), ([98], 1)], [0, 1, 2, 65535]))"
proof -
  have h: "snd ` set [([97 :: nat], 0 :: nat), ([98], 1)] = {..<length [([97 :: nat], 0 :: nat), ([98], 1)]}"
    by auto
  show ?thesis
    using binary_roundtrip [of "[([97], 0), ([98], 1)]" "[0, 1, 2, 65535]"] h by simp
qed

text \<open>
  C4 as stated fails: a table of one entry whose symbol is U+1F600 cannot be written,
  because its code point does not fit the two bytes of \<^verbatim>\<open>struct.pack("<H", ord(char))\<close>;
  and the empty table cannot be written, because line 270 applies \<^verbatim>\<open>max\<close> to it.
\<close>

theorem binary_roundtrip_counterexample:
  "write_file [([128512], 0)] [0] = Inl StructError \<and>
   write_file [] [0] = Inl ValueError_max_empty"
  by (simp add: write_file_def dict_max_value_def pack_B_def ord_def pack_H_def)

text \<open>
  C9, as amended: the byte that holds the table size stores the highest code, so a
  non-empty text whose symbols have code points below 65536 is written exactly when it
  has at most 256 distinct symbols; with more, \<^verbatim>\<open>struct.pack("<B", table_size)\<close> raises.
\<close>

theorem compress_to_file_cap:
  assumes "s \<noteq> []" and "distinct us" and "set us = set s" and "\<forall>c\<in>set s. c < 65536"
  shows "(\<not> isl (compress_to_file us s) \<longleftrightarrow> card (set s) \<le> 256) \<and>
         (256 < card (set s) \<longrightarrow> compress_to_file us s = Inl StructError)"
proof -
  have "card (set s) = length us"
    using assms(2,3) distinct_card [of us] by simp
  with compress_to_file_result [OF assms] show ?thesis
    by (auto split: if_splits)
qed

text \<open>A text of two distinct symbols is written; a text of 257 distinct symbols is not.\<close>

theorem compress_to_file_cap_witness:
  "[97, 98, 97 :: nat] \<noteq> [] \<and> distinct [98, 97 :: nat] \<and>
   set [98, 97 :: nat] = set [97, 98, 97] \<and> list_all (\<lambda>c. c < 65536) [97, 98, 97 :: nat] \<and>
   card (set [97, 98, 97 :: nat]) \<le> 256 \<and> \<not> isl (compress_to_file [98, 97] [97, 98, 97]) \<and>
   [0..<257] \<noteq> [] \<and> distinct [0..<257] \<and> list_all (\<lambda>c. c < 65536) [0..<257] \<and>
   256 < card (set [0..<257]) \<and> compress_to_file [0..<257] [0..<257] = Inl StructError"
proof -
  have h: "set [98, 97 :: nat] = set [97, 98, 97]" by auto
  have c: "card (set [97, 98, 97 :: nat]) \<le> 256"
    by (simp add: card_insert_if)
  have small: "\<not> isl (compress_to_file [98, 97] [97, 98, 97])"
    using compress_to_file_cap [of "[97, 98, 97]" "[98, 97]"] h c by simp
  have big: "[0..<257] \<noteq> [] \<and> distinct [0..<257] \<and> (\<forall>c\<in>set [0..<257]. c < 65536) \<and>
      256 < card (set [0..<257])"
    by (simp del: upt_rec_numeral)
  then have "compress_to_file [0..<257] [0..<257] = Inl StructError"
    using compress_to_file_cap [of "[0..<257]" "[0..<257]"] by blast
  with h c small big show ?thesis
    by (simp add: list_all_iff del: upt_rec_numeral)
qed

text \<open>
  C9 as stated fails: a text of 256 distinct symbols, one more than the claimed cap of
  255, is written; and a text of a single symbol, U+1F600, is not.
\<close>

theorem compress_to_file_256_symbols:
  "\<not> isl (compress_to_file [0..<256] [0..<256]) \<and> card (set [0..<256]) = 256 \<and>
   compress_to_file [128512] [128512] = Inl StructError"
proof -
  have "if length [0..<256] \<le> 256 then \<exists>bs. compress_to_file [0..<256] [0..<256] = Inr bs
         else compress_to_file [0..<256] [0..<256] = Inl StructError"
    by (rule compress_to_file_result) (simp_all del: upt_rec_numeral)
  then have "\<exists>bs. compress_to_file [0..<256] [0..<256] = Inr bs"
    by (simp del: upt_rec_numeral)
  then have "\<not> isl (compress_to_file [0..<256] [0..<256])"
    by (auto simp del: upt_rec_numeral)
  moreover have "card (set [0..<256]) = 256"
    by (simp del: upt_rec_numeral)
  moreover have "compress_to_file [128512] [128512] = Inl StructError"
    by (simp add: compress_to_file_def compress_def compress_run_def dict_of_pairs_def
        dict_set_def dict_max_value_def compress_step_def dict_contains_def dict_get_def
        write_file_def pack_B_def ord_def pack_H_def Let_def)
  ultimately show ?thesis by blast
qed

end
